theory Spec2Isabelle
  imports Complex_Main "HOL-Library.Monad_Syntax"
begin

unbundle bit_operations_syntax

section \<open>Loops and checked indexing\<close>

text \<open>
  The kernels are C++ functions over \<^verbatim>\<open>std::vector\<close>. Reading or writing a vector
  outside its bounds is undefined behaviour there, and a loop whose counter never reaches
  its bound does not return. Both are the value \<open>None\<close> in the model, so a theorem that a
  kernel returns \<open>Some C\<close> says that every access was in range and every loop ended.
\<close>

type_synonym 'a Vector1D = "'a list"
type_synonym 'a Matrix2D = "'a list list"

text \<open>\<^verbatim>\<open>M[i][j]\<close> as a read.\<close>

definition at2 :: "'a Matrix2D \<Rightarrow> nat \<Rightarrow> nat \<Rightarrow> 'a option" where
  "at2 M i j = (if i < length M \<and> j < length (M ! i) then Some (M ! i ! j) else None)"

text \<open>\<^verbatim>\<open>M[i][j] = v\<close>.\<close>

definition put2 :: "'a Matrix2D \<Rightarrow> nat \<Rightarrow> nat \<Rightarrow> 'a \<Rightarrow> 'a Matrix2D option" where
  "put2 M i j v =
     (if i < length M \<and> j < length (M ! i) then Some (M[i := (M ! i)[j := v]]) else None)"

text \<open>
  \<^verbatim>\<open>for (int k = lo; k < hi; k++) body\<close> runs the body on \<open>[lo..<hi]\<close> in order and stops
  at the first failure.
\<close>

primrec for_each :: "nat list \<Rightarrow> (nat \<Rightarrow> 's \<Rightarrow> 's option) \<Rightarrow> 's \<Rightarrow> 's option" where
  "for_each [] body s = Some s"
| "for_each (k # ks) body s = Option.bind (body k s) (for_each ks body)"

text \<open>
  \<^verbatim>\<open>for (int i = start; i < n; i += step) body\<close>. With \<open>step = 0\<close> the counter never
  moves and the loop does not return: the function is partial, and not returning is \<open>None\<close>.
\<close>

partial_function (option) for_step ::
  "nat \<Rightarrow> nat \<Rightarrow> (nat \<Rightarrow> 's \<Rightarrow> 's option) \<Rightarrow> nat \<Rightarrow> 's \<Rightarrow> 's option" where
  "for_step n step body i s =
     (if i < n then Option.bind (body i s) (\<lambda>s'. for_step n step body (i + step) s')
      else Some s)"

declare for_step.simps [code]

section \<open>Dense matrix multiplication (matmul\_swig.cpp)\<close>

text \<open>
  Entries are C++ \<^verbatim>\<open>double\<close>s. The kernels only add and multiply them, so the entry type
  is any type with \<open>0\<close>, \<open>+\<close> and \<open>*\<close>, and no law of arithmetic is assumed: what is proved holds
  for IEEE-754 doubles with their rounding as it does for the reals.
\<close>

definition matmul_naive ::
  "'a::{zero,plus,times} Matrix2D \<Rightarrow> 'a Matrix2D \<Rightarrow> 'a Matrix2D option" where
  "matmul_naive A B =
     (if A = [] \<or> B = [] then Some []
      else
        let n = length A;
            C = replicate n (replicate n 0)
        in for_each [0..<n] (\<lambda>i C.
             for_each [0..<n] (\<lambda>j C. do {
               sum \<leftarrow> for_each [0..<n] (\<lambda>k sum. do {
                        a \<leftarrow> at2 A i k;
                        b \<leftarrow> at2 B k j;
                        Some (sum + a * b) }) 0;
               put2 C i j sum }) C) C)"

text \<open>The body of the three tile loops: one tile of \<open>C\<close> accumulates one tile product.\<close>

definition process_block ::
  "'a::{zero,plus,times} Matrix2D \<Rightarrow> 'a Matrix2D \<Rightarrow> nat \<Rightarrow> nat \<Rightarrow> nat \<Rightarrow> nat \<Rightarrow> nat \<Rightarrow>
   'a Matrix2D \<Rightarrow> 'a Matrix2D option" where
  "process_block A B n block_size ii jj kk C =
     (let i_max = min (ii + block_size) n;
          j_max = min (jj + block_size) n;
          k_max = min (kk + block_size) n
      in for_each [ii..<i_max] (\<lambda>i C.
           for_each [jj..<j_max] (\<lambda>j C. do {
             sum0 \<leftarrow> at2 C i j;
             sum \<leftarrow> for_each [kk..<k_max] (\<lambda>k sum. do {
                      a \<leftarrow> at2 A i k;
                      b \<leftarrow> at2 B k j;
                      Some (sum + a * b) }) sum0;
             put2 C i j sum }) C) C)"

text \<open>
  \<^verbatim>\<open>block_size\<close> is a C++ \<^verbatim>\<open>int\<close>; the loops only ever add it to a counter that starts
  at 0. It is a natural number here: 0 is the value with which the loops do not return, and
  a negative value never brings the counter up to \<open>n\<close> either. The counters are natural
  numbers without a bound: \<open>ii + block_size\<close> passes the largest \<^verbatim>\<open>int\<close> only when \<open>n\<close> is
  above \<open>2 ^ 30\<close>, and no such matrix of vectors exists.
\<close>

definition matmul_blocked ::
  "'a::{zero,plus,times} Matrix2D \<Rightarrow> 'a Matrix2D \<Rightarrow> nat \<Rightarrow> 'a Matrix2D option" where
  "matmul_blocked A B block_size =
     (if A = [] \<or> B = [] then Some []
      else
        let n = length A;
            C = replicate n (replicate n 0)
        in for_step n block_size (\<lambda>ii C.
             for_step n block_size (\<lambda>jj C.
               for_step n block_size (\<lambda>kk C.
                 process_block A B n block_size ii jj kk C) 0 C) 0 C) 0 C)"

definition matmul_transpose ::
  "'a::{zero,plus,times} Matrix2D \<Rightarrow> 'a Matrix2D \<Rightarrow> 'a Matrix2D option" where
  "matmul_transpose A B =
     (if A = [] \<or> B = [] then Some []
      else
        let n = length A;
            C = replicate n (replicate n 0);
            B_T0 = replicate n (replicate n 0)
        in do {
          B_T \<leftarrow> for_each [0..<n] (\<lambda>i B_T.
                   for_each [0..<n] (\<lambda>j B_T. do {
                     b \<leftarrow> at2 B i j;
                     put2 B_T j i b }) B_T) B_T0;
          for_each [0..<n] (\<lambda>i C.
            for_each [0..<n] (\<lambda>j C. do {
              sum \<leftarrow> for_each [0..<n] (\<lambda>k sum. do {
                       a \<leftarrow> at2 A i k;
                       b \<leftarrow> at2 B_T j k;
                       Some (sum + a * b) }) 0;
              put2 C i j sum }) C) C })"


section \<open>N-body step (nbody\_swig.cpp, nbody\_cy.pyx)\<close>

text \<open>
  A body is five \<^verbatim>\<open>double\<close>s. The step adds, subtracts, multiplies, divides and takes
  square roots; the field type is any type with these operations (the square root is a
  parameter), with no law assumed, so the structural results hold for IEEE-754 doubles,
  where every operation is total. What rounding, the infinities and NaN decide is stated
  on the type of doubles, further down.
\<close>

record 'a Body =
  body_x :: 'a
  body_y :: 'a
  body_vx :: 'a
  body_vy :: 'a
  body_m :: 'a

type_synonym 'a BodiesVector = "'a Body list"

text \<open>The softened distance of a pair, and the divisor of the one division of the loop.\<close>

definition dist_soft ::
  "('a \<Rightarrow> 'a) \<Rightarrow> 'a::{plus,minus,times} \<Rightarrow> 'a Body \<Rightarrow> 'a Body \<Rightarrow> 'a" where
  "dist_soft sqrt_d softening body_i body_j =
     (let dx = body_x body_j - body_x body_i;
          dy = body_y body_j - body_y body_i;
          dist_sq = dx * dx + dy * dy
      in sqrt_d (dist_sq + softening))"

definition dist_cube ::
  "('a \<Rightarrow> 'a) \<Rightarrow> 'a::{plus,minus,times} \<Rightarrow> 'a Body \<Rightarrow> 'a Body \<Rightarrow> 'a" where
  "dist_cube sqrt_d softening body_i body_j =
     (let d = dist_soft sqrt_d softening body_i body_j in d * d * d)"

text \<open>What one pair adds to \<^verbatim>\<open>ax[i]\<close> and \<^verbatim>\<open>ay[i]\<close>.\<close>

definition pair_accel ::
  "('a \<Rightarrow> 'a) \<Rightarrow> 'a::{one,plus,minus,times,inverse} \<Rightarrow> 'a \<Rightarrow> 'a Body \<Rightarrow> 'a Body \<Rightarrow> 'a \<times> 'a" where
  "pair_accel sqrt_d G softening body_i body_j =
     (let dx = body_x body_j - body_x body_i;
          dy = body_y body_j - body_y body_i;
          inv_dist_cube = 1 / dist_cube sqrt_d softening body_i body_j;
          force_factor = G * body_m body_j * inv_dist_cube
      in (dx * force_factor, dy * force_factor))"

subsection \<open>C++\<close>

text \<open>
  The variables of \<^verbatim>\<open>nbody_step_update\<close>: the parameter \<^verbatim>\<open>bodies\<close> (a const
  reference to the caller's vector), its copy \<^verbatim>\<open>updated_bodies\<close>, and the two
  acceleration arrays. All four have length \<open>N\<close> and every index is below \<open>N\<close>.
\<close>

record 'a nbody_vars =
  bodies :: "'a Body list"
  updated_bodies :: "'a Body list"
  ax :: "'a list"
  ay :: "'a list"

definition accel_pair_step ::
  "('a \<Rightarrow> 'a) \<Rightarrow> 'a::{one,plus,minus,times,inverse} \<Rightarrow> 'a \<Rightarrow> nat \<Rightarrow> nat \<Rightarrow>
   'a nbody_vars \<Rightarrow> 'a nbody_vars" where
  "accel_pair_step sqrt_d G softening i j st =
     (if i = j then st
      else
        let body_i = bodies st ! i;
            body_j = bodies st ! j;
            (fx, fy) = pair_accel sqrt_d G softening body_i body_j
        in st\<lparr>ax := (ax st)[i := ax st ! i + fx], ay := (ay st)[i := ay st ! i + fy]\<rparr>)"

definition accel_loop ::
  "('a \<Rightarrow> 'a) \<Rightarrow> 'a::{one,plus,minus,times,inverse} \<Rightarrow> 'a \<Rightarrow> nat \<Rightarrow>
   'a nbody_vars \<Rightarrow> 'a nbody_vars" where
  "accel_loop sqrt_d G softening N st =
     fold (\<lambda>i st. fold (\<lambda>j st. accel_pair_step sqrt_d G softening i j st) [0..<N] st) [0..<N] st"

text \<open>The four assignments of the second loop, in the order of the source.\<close>

definition update_body_step :: "'a::{plus,times} \<Rightarrow> nat \<Rightarrow> 'a nbody_vars \<Rightarrow> 'a nbody_vars" where
  "update_body_step dt i st =
     (let u0 = updated_bodies st;
          u1 = u0[i := (u0 ! i)\<lparr>body_vx := body_vx (u0 ! i) + ax st ! i * dt\<rparr>];
          u2 = u1[i := (u1 ! i)\<lparr>body_vy := body_vy (u1 ! i) + ay st ! i * dt\<rparr>];
          u3 = u2[i := (u2 ! i)\<lparr>body_x := body_x (u2 ! i) + body_vx (u2 ! i) * dt\<rparr>];
          u4 = u3[i := (u3 ! i)\<lparr>body_y := body_y (u3 ! i) + body_vy (u3 ! i) * dt\<rparr>]
      in st\<lparr>updated_bodies := u4\<rparr>)"

definition update_loop :: "'a::{plus,times} \<Rightarrow> nat \<Rightarrow> 'a nbody_vars \<Rightarrow> 'a nbody_vars" where
  "update_loop dt N st = fold (\<lambda>i st. update_body_step dt i st) [0..<N] st"

text \<open>The state in which \<^verbatim>\<open>nbody_step_update\<close> returns.\<close>

definition nbody_step_vars ::
  "('a \<Rightarrow> 'a) \<Rightarrow> 'a::{zero,one,plus,minus,times,inverse} BodiesVector \<Rightarrow> 'a \<Rightarrow> 'a \<Rightarrow> 'a \<Rightarrow>
   'a nbody_vars" where
  "nbody_step_vars sqrt_d bs dt G softening =
     (let N = length bs;
          st = \<lparr>bodies = bs, updated_bodies = bs, ax = replicate N 0, ay = replicate N 0\<rparr>
      in update_loop dt N (accel_loop sqrt_d G softening N st))"

definition nbody_step_update ::
  "('a \<Rightarrow> 'a) \<Rightarrow> 'a::{zero,one,plus,minus,times,inverse} BodiesVector \<Rightarrow> 'a \<Rightarrow> 'a \<Rightarrow> 'a \<Rightarrow>
   'a BodiesVector" where
  "nbody_step_update sqrt_d bs dt G softening =
     updated_bodies (nbody_step_vars sqrt_d bs dt G softening)"

subsection \<open>Cython\<close>

text \<open>
  \<^verbatim>\<open>nbody_step_update_cy\<close> takes a Python list of dictionaries. A list holds references,
  so the model has a store from references to dictionaries and the list is a list of
  references; a dictionary maps its keys to numbers. The function raises
  \<^verbatim>\<open>MemoryError\<close> when an allocation fails and \<^verbatim>\<open>KeyError\<close> when a dictionary
  lacks one of the five keys; both happen before the first write to a dictionary.
\<close>

datatype cy_error = MemoryError | KeyError | ValueError

type_synonym 'a py_dict = "string \<rightharpoonup> 'a"
type_synonym 'a py_store = "nat \<Rightarrow> 'a py_dict"

definition read_body :: "'a py_dict \<Rightarrow> cy_error + 'a Body" where
  "read_body d =
     (case (d ''x'', d ''y'', d ''vx'', d ''vy'', d ''m'') of
        (Some x, Some y, Some vx, Some vy, Some m) \<Rightarrow>
          Inr \<lparr>body_x = x, body_y = y, body_vx = vx, body_vy = vy, body_m = m\<rparr>
      | _ \<Rightarrow> Inl KeyError)"

text \<open>The first loop: the dictionaries are copied into \<^verbatim>\<open>body_array\<close> in list order.\<close>

fun copy_in :: "'a py_store \<Rightarrow> nat list \<Rightarrow> cy_error + 'a Body list" where
  "copy_in h [] = Inr []"
| "copy_in h (r # rs) =
     (case read_body (h r) of
        Inl e \<Rightarrow> Inl e
      | Inr b \<Rightarrow> (case copy_in h rs of Inl e \<Rightarrow> Inl e | Inr body_array \<Rightarrow> Inr (b # body_array)))"

text \<open>The accumulators \<^verbatim>\<open>ax\<close>, \<^verbatim>\<open>ay\<close> of body \<open>i\<close> after the inner loop.\<close>

definition accel_step_cy ::
  "('a \<Rightarrow> 'a) \<Rightarrow> 'a::{one,plus,minus,times,inverse} \<Rightarrow> 'a \<Rightarrow> 'a Body list \<Rightarrow> nat \<Rightarrow> nat \<Rightarrow>
   'a \<times> 'a \<Rightarrow> 'a \<times> 'a" where
  "accel_step_cy sqrt_d G softening body_array i j acc =
     (let (ax_i, ay_i) = acc in
      if i = j then (ax_i, ay_i)
      else
        let (fx, fy) = pair_accel sqrt_d G softening (body_array ! i) (body_array ! j)
        in (ax_i + fx, ay_i + fy))"

definition accel_cy ::
  "('a \<Rightarrow> 'a) \<Rightarrow> 'a::{zero,one,plus,minus,times,inverse} \<Rightarrow> 'a \<Rightarrow> 'a Body list \<Rightarrow> nat \<Rightarrow> 'a \<times> 'a" where
  "accel_cy sqrt_d G softening body_array i =
     fold (accel_step_cy sqrt_d G softening body_array i) [0..<length body_array] (0, 0)"

text \<open>
  \<^verbatim>\<open>accel_x\<close> and \<^verbatim>\<open>accel_y\<close> come from \<^verbatim>\<open>malloc\<close>; every cell is written before
  it is read, and the cells start as 0 here.
\<close>

definition accel_arrays_step_cy ::
  "('a \<Rightarrow> 'a) \<Rightarrow> 'a::{zero,one,plus,minus,times,inverse} \<Rightarrow> 'a \<Rightarrow> 'a Body list \<Rightarrow> nat \<Rightarrow>
   'a list \<times> 'a list \<Rightarrow> 'a list \<times> 'a list" where
  "accel_arrays_step_cy sqrt_d G softening body_array i acc =
     (let (accel_x, accel_y) = acc;
          (ax_i, ay_i) = accel_cy sqrt_d G softening body_array i
      in (accel_x[i := ax_i], accel_y[i := ay_i]))"

definition accel_arrays_cy ::
  "('a \<Rightarrow> 'a) \<Rightarrow> 'a::{zero,one,plus,minus,times,inverse} \<Rightarrow> 'a \<Rightarrow> 'a Body list \<Rightarrow> 'a list \<times> 'a list" where
  "accel_arrays_cy sqrt_d G softening body_array =
     (let N = length body_array in
      fold (accel_arrays_step_cy sqrt_d G softening body_array) [0..<N]
        (replicate N 0, replicate N 0))"

text \<open>The four assignments of the second loop, on \<^verbatim>\<open>body_array[i]\<close>.\<close>

definition update_array_step_cy ::
  "'a::{plus,times} \<Rightarrow> 'a list \<Rightarrow> 'a list \<Rightarrow> nat \<Rightarrow> 'a Body list \<Rightarrow> 'a Body list" where
  "update_array_step_cy dt accel_x accel_y i a =
     (let a1 = a[i := (a ! i)\<lparr>body_vx := body_vx (a ! i) + accel_x ! i * dt\<rparr>];
          a2 = a1[i := (a1 ! i)\<lparr>body_vy := body_vy (a1 ! i) + accel_y ! i * dt\<rparr>];
          a3 = a2[i := (a2 ! i)\<lparr>body_x := body_x (a2 ! i) + body_vx (a2 ! i) * dt\<rparr>];
          a4 = a3[i := (a3 ! i)\<lparr>body_y := body_y (a3 ! i) + body_vy (a3 ! i) * dt\<rparr>]
      in a4)"

definition update_array_cy :: "'a::{plus,times} \<Rightarrow> 'a list \<Rightarrow> 'a list \<Rightarrow> 'a Body list \<Rightarrow> 'a Body list" where
  "update_array_cy dt accel_x accel_y body_array =
     fold (update_array_step_cy dt accel_x accel_y) [0..<length body_array] body_array"

text \<open>\<^verbatim>\<open>body_array\<close> when the second loop is over.\<close>

definition kernel_cy ::
  "('a \<Rightarrow> 'a) \<Rightarrow> 'a::{zero,one,plus,minus,times,inverse} Body list \<Rightarrow> 'a \<Rightarrow> 'a \<Rightarrow> 'a \<Rightarrow> 'a Body list" where
  "kernel_cy sqrt_d body_array dt G softening =
     (let (accel_x, accel_y) = accel_arrays_cy sqrt_d G softening body_array
      in update_array_cy dt accel_x accel_y body_array)"

text \<open>The last loop writes four keys of the dictionary behind \<^verbatim>\<open>bodies[i]\<close>.\<close>

definition write_back_step :: "nat list \<Rightarrow> 'a Body list \<Rightarrow> nat \<Rightarrow> 'a py_store \<Rightarrow> 'a py_store" where
  "write_back_step refs body_array i h =
     (let h1 = h(refs ! i := (h (refs ! i))(''x'' \<mapsto> body_x (body_array ! i)));
          h2 = h1(refs ! i := (h1 (refs ! i))(''y'' \<mapsto> body_y (body_array ! i)));
          h3 = h2(refs ! i := (h2 (refs ! i))(''vx'' \<mapsto> body_vx (body_array ! i)));
          h4 = h3(refs ! i := (h3 (refs ! i))(''vy'' \<mapsto> body_vy (body_array ! i)))
      in h4)"

definition write_back :: "nat list \<Rightarrow> 'a Body list \<Rightarrow> 'a py_store \<Rightarrow> 'a py_store" where
  "write_back refs body_array h = fold (write_back_step refs body_array) [0..<length refs] h"

text \<open>
  \<open>alloc_ok\<close> says whether the three \<^verbatim>\<open>malloc\<close> calls succeeded. The result is the
  store after the call and the returned list, which is the argument \<^verbatim>\<open>bodies\<close> itself.
\<close>

definition nbody_step_update_cy ::
  "('a \<Rightarrow> 'a) \<Rightarrow> bool \<Rightarrow> 'a::{zero,one,plus,minus,times,inverse} py_store \<Rightarrow> nat list \<Rightarrow>
   'a \<Rightarrow> 'a \<Rightarrow> 'a \<Rightarrow> cy_error + ('a py_store \<times> nat list)" where
  "nbody_step_update_cy sqrt_d alloc_ok h refs dt G softening =
     (if \<not> alloc_ok then Inl MemoryError
      else case copy_in h refs of
        Inl e \<Rightarrow> Inl e
      | Inr body_array \<Rightarrow>
          Inr (write_back refs (kernel_cy sqrt_d body_array dt G softening) h, refs))"


section \<open>Fourier transform (fft\_swig.cpp, fft\_cy.pyx)\<close>

text \<open>
  A \<^verbatim>\<open>ComplexVector\<close> is a vector of \<^verbatim>\<open>std::complex<double>\<close>; the numbers are the
  complex numbers of HOL. The length \<open>N\<close> is a C++ \<^verbatim>\<open>int\<close>, and the test
  \<^verbatim>\<open>N & (N - 1)\<close> is taken on integers, where \<open>N - 1\<close> is \<open>-1\<close> for the empty vector.
\<close>

type_synonym ComplexVector = "complex list"

definition dft_naive :: "ComplexVector \<Rightarrow> ComplexVector" where
  "dft_naive x =
     (let N = length x in
      fold (\<lambda>k X.
         let s = fold (\<lambda>n s.
                   let angle = - 2 * pi * real k * real n / real N;
                       w = Complex (cos angle) (sin angle)
                   in s + x ! n * w) [0..<N] 0
         in X[k := s]) [0..<N] (replicate N 0))"

text \<open>The combine loop of the recursive transform.\<close>

definition combine :: "nat \<Rightarrow> ComplexVector \<Rightarrow> ComplexVector \<Rightarrow> ComplexVector" where
  "combine N even_fft odd_fft =
     fold (\<lambda>k X.
        let angle = - 2 * pi * real k / real N;
            w = Complex (cos angle) (sin angle);
            t = w * odd_fft ! k
        in X[k := even_fft ! k + t, k + N div 2 := even_fft ! k - t])
       [0..<N div 2] (replicate N 0)"

text \<open>
  The divide loop runs \<open>i = 0, 2, 4, \<dots>\<close> below \<open>N\<close> and pushes \<^verbatim>\<open>x[i]\<close> and
  \<^verbatim>\<open>x[i + 1]\<close>; it is reached with \<open>N\<close> a power of two, at least 2.
\<close>

function fft_cooley_tukey :: "ComplexVector \<Rightarrow> ComplexVector" where
  "fft_cooley_tukey x =
     (if length x \<le> 1 then x
      else if int (length x) AND (int (length x) - 1) \<noteq> 0 then dft_naive x
      else
        combine (length x)
          (fft_cooley_tukey (map (\<lambda>i. x ! (2 * i)) [0..<(length x + 1) div 2]))
          (fft_cooley_tukey (map (\<lambda>i. x ! (2 * i + 1)) [0..<(length x + 1) div 2])))"
  by pat_completeness auto
termination
  by (relation "measure length") auto

text \<open>
  The inner loop of the bit reversal, \<^verbatim>\<open>while (k <= j) { j -= k; k >>= 1; }\<close>. It does
  not return from \<open>k = 0\<close>.
\<close>

partial_function (option) bitrev_carry :: "nat \<Rightarrow> nat \<Rightarrow> (nat \<times> nat) option" where
  "bitrev_carry k j = (if k \<le> j then bitrev_carry (drop_bit 1 k) (j - k) else Some (k, j))"

declare bitrev_carry.simps [code]

definition bit_reverse_permute :: "nat \<Rightarrow> ComplexVector \<Rightarrow> ComplexVector option" where
  "bit_reverse_permute N X0 =
     map_option fst
       (for_each [0..<N - 1] (\<lambda>i (X, j). do {
          let X' = (if i < j then X[i := X ! j, j := X ! i] else X);
          (k, j') \<leftarrow> bitrev_carry (drop_bit 1 N) j;
          Some (X', j' + k) }) (X0, 0))"

text \<open>The butterflies of the block that starts at \<open>i\<close>.\<close>

definition butterfly_block :: "nat \<Rightarrow> complex \<Rightarrow> nat \<Rightarrow> ComplexVector \<Rightarrow> ComplexVector" where
  "butterfly_block half wm i X =
     fst (fold (\<lambda>j (X, w).
            let idx = i + j;
                t = w * X ! (idx + half);
                X1 = X[idx + half := X ! idx - t];
                X2 = X1[idx := X1 ! idx + t]
            in (X2, w * wm)) [0..<half] (X, 1))"

definition fft_stage :: "nat \<Rightarrow> nat \<Rightarrow> ComplexVector \<Rightarrow> ComplexVector option" where
  "fft_stage N sz X =
     (let half = drop_bit 1 sz;
          angle = - 2 * pi / real sz;
          wm = Complex (cos angle) (sin angle)
      in for_step N sz (\<lambda>i X. Some (butterfly_block half wm i X)) 0 X)"

text \<open>\<^verbatim>\<open>for (int size = 2; size <= N; size <<= 1)\<close>, from the current \<open>sz\<close> on.\<close>

partial_function (option) fft_stages :: "nat \<Rightarrow> nat \<Rightarrow> ComplexVector \<Rightarrow> ComplexVector option" where
  "fft_stages N sz X =
     (if sz \<le> N then Option.bind (fft_stage N sz X) (\<lambda>X'. fft_stages N (push_bit 1 sz) X')
      else Some X)"

declare fft_stages.simps [code]

definition fft_iterative :: "ComplexVector \<Rightarrow> ComplexVector option" where
  "fft_iterative x =
     (let N = length x in
      if int N AND (int N - 1) \<noteq> 0 then Some (dft_naive x)
      else do {
        X \<leftarrow> bit_reverse_permute N x;
        fft_stages N 2 X })"

subsection \<open>Cython\<close>

text \<open>
  The Cython variants test \<^verbatim>\<open>N & (N - 1) != 0\<close>, which Python reads as
  \<^verbatim>\<open>(N & (N - 1)) != 0\<close>, and raise \<^verbatim>\<open>ValueError\<close>. \<^verbatim>\<open>x[0::2]\<close> and
  \<^verbatim>\<open>x[1::2]\<close> are the elements at the even and at the odd indices.
\<close>

definition slice_step2 :: "nat \<Rightarrow> 'a list \<Rightarrow> 'a list" where
  "slice_step2 start x = map (\<lambda>i. x ! (start + 2 * i)) [0..<(length x + 1 - start) div 2]"

definition combine_cy :: "nat \<Rightarrow> ComplexVector \<Rightarrow> ComplexVector \<Rightarrow> ComplexVector" where
  "combine_cy N even_fft odd_fft =
     (let T = fold (\<lambda>k T.
                 let angle = - 2 * pi * real k / real N;
                     w = Complex (cos angle) (sin angle)
                 in T[k := w * odd_fft ! k]) [0..<N div 2] (replicate (N div 2) 0)
      in fold (\<lambda>k X. X[k := even_fft ! k + T ! k, k + N div 2 := even_fft ! k - T ! k])
           [0..<N div 2] (replicate N 0))"

function fft_cooley_tukey_cy :: "ComplexVector \<Rightarrow> cy_error + ComplexVector" where
  "fft_cooley_tukey_cy x =
     (if length x \<le> 1 then Inr x
      else if int (length x) AND (int (length x) - 1) \<noteq> 0 then Inl ValueError
      else
        (case fft_cooley_tukey_cy (slice_step2 0 x) of
           Inl e \<Rightarrow> Inl e
         | Inr even_fft \<Rightarrow>
             (case fft_cooley_tukey_cy (slice_step2 1 x) of
                Inl e \<Rightarrow> Inl e
              | Inr odd_fft \<Rightarrow> Inr (combine_cy (length x) even_fft odd_fft))))"
  by pat_completeness auto
termination
  by (relation "measure length") (auto simp: slice_step2_def)

text \<open>\<open>None\<close> is a call that does not return, \<open>Some (Inl e)\<close> one that raises \<open>e\<close>.\<close>

definition fft_iterative_cy :: "ComplexVector \<Rightarrow> (cy_error + ComplexVector) option" where
  "fft_iterative_cy x =
     (let N = length x in
      if int N AND (int N - 1) \<noteq> 0 then Some (Inl ValueError)
      else do {
        X \<leftarrow> bit_reverse_permute N x;
        X' \<leftarrow> fft_stages N 2 X;
        Some (Inr X') })"


section \<open>Double precision\<close>

text \<open>
  The C++ and Cython \<^verbatim>\<open>double\<close> is IEEE-754 binary64 with rounding to nearest, ties to
  even. A double is a finite number, an infinity or a NaN; the two zeros are one value
  here. \<open>round64\<close> rounds a real number to the nearest multiple of the spacing of the
  doubles around it: \<open>2 ^ (e - 52)\<close> in the binade \<open>2 ^ e\<close>, and \<open>2 ^ (- 1074)\<close> from the
  subnormal range down. A result beyond the largest double is an infinity. Every operation
  rounds its exact result once; no two operations are fused.
\<close>

datatype double = Finite real | PlusInf | MinusInf | NaN

definition round_half_even :: "real \<Rightarrow> int" where
  "round_half_even r =
     (let f = \<lfloor>r\<rfloor> in
      if r - of_int f < 1 / 2 then f
      else if 1 / 2 < r - of_int f then f + 1
      else if even f then f else f + 1)"

definition quantum :: "real \<Rightarrow> real" where
  "quantum x = 2 powr of_int (max \<lfloor>log 2 \<bar>x\<bar>\<rfloor> (- 1022) - 52)"

definition round64 :: "real \<Rightarrow> real" where
  "round64 x = (if x = 0 then 0 else of_int (round_half_even (x / quantum x)) * quantum x)"

definition max_double :: real where
  "max_double = (2 - 2 powr (- 52)) * 2 powr 1023"

definition to_double :: "real \<Rightarrow> double" where
  "to_double x =
     (let r = round64 x in
      if max_double < r then PlusInf else if r < - max_double then MinusInf else Finite r)"

text \<open>The operations, with the special values of the standard.\<close>

fun double_neg :: "double \<Rightarrow> double" where
  "double_neg (Finite a) = Finite (- a)"
| "double_neg PlusInf = MinusInf"
| "double_neg MinusInf = PlusInf"
| "double_neg NaN = NaN"

fun double_add :: "double \<Rightarrow> double \<Rightarrow> double" where
  "double_add (Finite a) (Finite b) = to_double (a + b)"
| "double_add NaN _ = NaN"
| "double_add _ NaN = NaN"
| "double_add PlusInf MinusInf = NaN"
| "double_add MinusInf PlusInf = NaN"
| "double_add PlusInf _ = PlusInf"
| "double_add MinusInf _ = MinusInf"
| "double_add _ PlusInf = PlusInf"
| "double_add _ MinusInf = MinusInf"

definition signed_inf :: "bool \<Rightarrow> double" where
  "signed_inf positive = (if positive then PlusInf else MinusInf)"

fun double_mul :: "double \<Rightarrow> double \<Rightarrow> double" where
  "double_mul (Finite a) (Finite b) = to_double (a * b)"
| "double_mul NaN _ = NaN"
| "double_mul _ NaN = NaN"
| "double_mul (Finite a) PlusInf = (if a = 0 then NaN else signed_inf (0 < a))"
| "double_mul (Finite a) MinusInf = (if a = 0 then NaN else signed_inf (a < 0))"
| "double_mul PlusInf (Finite b) = (if b = 0 then NaN else signed_inf (0 < b))"
| "double_mul MinusInf (Finite b) = (if b = 0 then NaN else signed_inf (b < 0))"
| "double_mul PlusInf PlusInf = PlusInf"
| "double_mul MinusInf MinusInf = PlusInf"
| "double_mul PlusInf MinusInf = MinusInf"
| "double_mul MinusInf PlusInf = MinusInf"

fun double_div :: "double \<Rightarrow> double \<Rightarrow> double" where
  "double_div (Finite a) (Finite b) =
     (if b = 0 then (if a = 0 then NaN else signed_inf (0 < a)) else to_double (a / b))"
| "double_div NaN _ = NaN"
| "double_div _ NaN = NaN"
| "double_div (Finite a) _ = Finite 0"
| "double_div PlusInf (Finite b) = signed_inf (0 \<le> b)"
| "double_div MinusInf (Finite b) = signed_inf (b < 0)"
| "double_div _ _ = NaN"

fun double_sqrt :: "double \<Rightarrow> double" where
  "double_sqrt (Finite a) = (if a < 0 then NaN else to_double (sqrt a))"
| "double_sqrt PlusInf = PlusInf"
| "double_sqrt MinusInf = NaN"
| "double_sqrt NaN = NaN"

text \<open>With these operations the kernels run on doubles as they are written.\<close>

instantiation double :: "{zero,one,plus,minus,times,inverse}"
begin

definition zero_double :: double where "zero_double = Finite 0"
definition one_double :: double where "one_double = Finite 1"
definition plus_double :: "double \<Rightarrow> double \<Rightarrow> double" where "plus_double = double_add"
definition minus_double :: "double \<Rightarrow> double \<Rightarrow> double" where
  "minus_double a b = double_add a (double_neg b)"
definition times_double :: "double \<Rightarrow> double \<Rightarrow> double" where "times_double = double_mul"
definition divide_double :: "double \<Rightarrow> double \<Rightarrow> double" where "divide_double = double_div"
definition inverse_double :: "double \<Rightarrow> double" where "inverse_double a = double_div (Finite 1) a"

instance ..

end

text \<open>
  The comparisons \<^verbatim>\<open><=\<close> and \<^verbatim>\<open><\<close> of the standard: a comparison with a NaN is false.
\<close>

fun double_le :: "double \<Rightarrow> double \<Rightarrow> bool" where
  "double_le (Finite a) (Finite b) = (a \<le> b)"
| "double_le NaN _ = False"
| "double_le _ NaN = False"
| "double_le MinusInf _ = True"
| "double_le _ PlusInf = True"
| "double_le _ _ = False"

definition double_less :: "double \<Rightarrow> double \<Rightarrow> bool" where
  "double_less a b \<longleftrightarrow> double_le a b \<and> \<not> double_le b a"

text \<open>
  The values that a variable of the type holds: the infinities, NaN, and the finite numbers
  that rounding leaves as they are.
\<close>

definition is_double :: "double \<Rightarrow> bool" where
  "is_double d \<longleftrightarrow> (case d of Finite a \<Rightarrow> to_double a = Finite a | _ \<Rightarrow> True)"

text \<open>A body at the origin, and a softening that is above 0 and very small.\<close>

definition coincident_body :: "double Body" where
  "coincident_body = \<lparr>body_x = Finite 0, body_y = Finite 0, body_vx = Finite 0, body_vy = Finite 0, body_m = Finite 1\<rparr>"

definition tiny_softening :: real where
  "tiny_softening = 2 powr (- 1000)"

text \<open>A body at the origin that moves along \<open>x\<close>.\<close>

definition moving_body :: "double Body" where
  "moving_body = \<lparr>body_x = Finite 0, body_y = Finite 0, body_vx = Finite 1, body_vy = Finite 0, body_m = Finite 1\<rparr>"

section \<open>Random initial bodies (nbody\_swig.cpp, nbody\_cy.pyx)\<close>

text \<open>
  \<^verbatim>\<open>std::rand()\<close> returns an integer between 0 and \<^verbatim>\<open>RAND_MAX\<close>, both included.
  \<^verbatim>\<open>RAND_MAX\<close> comes from \<^verbatim>\<open>cstdlib\<close> and is a parameter here. The random source is the
  sequence \<open>rand_seq\<close> of the values that the calls return, and \<open>calls\<close> counts the calls made
  so far; the function returns the new count with the bodies. The numbers are doubles:
  \<^verbatim>\<open>static_cast<double>\<close> and the conversion of \<^verbatim>\<open>RAND_MAX\<close> turn an integer into the
  nearest double, and the literal \<^verbatim>\<open>0.1\<close> is the double nearest to one tenth.
\<close>

definition tenth :: double where
  "tenth = to_double (1 / 10)"

definition rand_unit :: "nat \<Rightarrow> nat \<Rightarrow> double" where
  "rand_unit RAND_MAX r = to_double (of_nat r) / to_double (of_nat RAND_MAX)"

text \<open>The body of the loop: five calls of \<^verbatim>\<open>std::rand()\<close>, the calls \<open>c\<close> to \<open>c + 4\<close>.\<close>

definition random_body :: "nat \<Rightarrow> (nat \<Rightarrow> nat) \<Rightarrow> nat \<Rightarrow> double \<Rightarrow> double \<Rightarrow> double Body" where
  "random_body RAND_MAX rand_seq c box_size max_mass =
     (let x = rand_unit RAND_MAX (rand_seq c) * box_size;
          y = rand_unit RAND_MAX (rand_seq (c + 1)) * box_size;
          vx = rand_unit RAND_MAX (rand_seq (c + 2)) * Finite 2 - Finite 1;
          vy = rand_unit RAND_MAX (rand_seq (c + 3)) * Finite 2 - Finite 1;
          m = rand_unit RAND_MAX (rand_seq (c + 4)) * (max_mass - tenth) + tenth
      in \<lparr>body_x = x, body_y = y, body_vx = vx, body_vy = vy, body_m = m\<rparr>)"

definition push_random_body ::
  "nat \<Rightarrow> (nat \<Rightarrow> nat) \<Rightarrow> double \<Rightarrow> double \<Rightarrow> nat \<Rightarrow> double Body list \<times> nat \<Rightarrow> double Body list \<times> nat" where
  "push_random_body RAND_MAX rand_seq box_size max_mass i acc =
     (fst acc @ [random_body RAND_MAX rand_seq (snd acc) box_size max_mass], snd acc + 5)"

text \<open>
  \<^verbatim>\<open>bodies.reserve(N)\<close> takes an unsigned size: a negative \<open>N\<close> becomes a size above
  \<^verbatim>\<open>max_size()\<close>, and \<^verbatim>\<open>reserve\<close> throws \<^verbatim>\<open>std::length_error\<close> before any body is made.
  \<open>N\<close> is an \<^verbatim>\<open>int\<close>; the storage that \<open>N\<close> bodies need is taken to be there.
\<close>

datatype cpp_error = LengthError

definition initialize_bodies ::
  "nat \<Rightarrow> (nat \<Rightarrow> nat) \<Rightarrow> nat \<Rightarrow> int \<Rightarrow> double \<Rightarrow> double \<Rightarrow> cpp_error + (double Body list \<times> nat)" where
  "initialize_bodies RAND_MAX rand_seq calls N box_size max_mass =
     (if N < 0 then Inl LengthError
      else Inr (fold (push_random_body RAND_MAX rand_seq box_size max_mass) [0..<nat N] ([], calls)))"

text \<open>
  Python's \<^verbatim>\<open>random.uniform(a, b)\<close> is \<^verbatim>\<open>a + (b - a) * random()\<close> on doubles, where
  \<^verbatim>\<open>random()\<close> is at least 0 and less than 1; \<open>unit_seq\<close> is the sequence of the values
  of \<^verbatim>\<open>random()\<close>. The function returns a list of new dictionaries; with a negative \<open>N\<close>
  the loop over \<^verbatim>\<open>range(N)\<close> has no round and the list is empty. The parameter is
  declared \<^verbatim>\<open>int N\<close>: a Python integer outside the range of a C \<^verbatim>\<open>int\<close> raises
  \<^verbatim>\<open>OverflowError\<close> when the function is entered.
\<close>

definition uniform :: "double \<Rightarrow> double \<Rightarrow> double \<Rightarrow> double" where
  "uniform a b u = a + (b - a) * u"

definition random_dict :: "(nat \<Rightarrow> double) \<Rightarrow> nat \<Rightarrow> double \<Rightarrow> double \<Rightarrow> double py_dict" where
  "random_dict unit_seq c box_size max_mass =
     [''x'' \<mapsto> uniform (Finite 0) box_size (unit_seq c),
      ''y'' \<mapsto> uniform (Finite 0) box_size (unit_seq (c + 1)),
      ''vx'' \<mapsto> uniform (Finite (- 1)) (Finite 1) (unit_seq (c + 2)),
      ''vy'' \<mapsto> uniform (Finite (- 1)) (Finite 1) (unit_seq (c + 3)),
      ''m'' \<mapsto> uniform tenth max_mass (unit_seq (c + 4))]"

definition append_random_dict ::
  "(nat \<Rightarrow> double) \<Rightarrow> double \<Rightarrow> double \<Rightarrow> nat \<Rightarrow> double py_dict list \<times> nat \<Rightarrow> double py_dict list \<times> nat" where
  "append_random_dict unit_seq box_size max_mass i acc =
     (fst acc @ [random_dict unit_seq (snd acc) box_size max_mass], snd acc + 5)"

datatype py_error = OverflowError

definition initialize_bodies_cy ::
  "(nat \<Rightarrow> double) \<Rightarrow> nat \<Rightarrow> int \<Rightarrow> double \<Rightarrow> double \<Rightarrow>
   py_error + (double py_dict list \<times> nat)" where
  "initialize_bodies_cy unit_seq calls N box_size max_mass =
     (if N < - (2 ^ 31) \<or> 2 ^ 31 \<le> N then Inl OverflowError
      else Inr (fold (append_random_dict unit_seq box_size max_mass) [0..<nat N] ([], calls)))"

section \<open>Notions used in the statements and proofs\<close>

text \<open>An \<open>n\<close> by \<open>n\<close> matrix: \<open>n\<close> rows of length \<open>n\<close>.\<close>

definition square :: "nat \<Rightarrow> 'a Matrix2D \<Rightarrow> bool" where
  "square n M \<longleftrightarrow> length M = n \<and> list_all (\<lambda>row. length row = n) M"

text \<open>The \<open>n\<close> by \<open>n\<close> matrix with entry \<open>g i j\<close> in row \<open>i\<close> and column \<open>j\<close>.\<close>

definition mat_of :: "nat \<Rightarrow> (nat \<Rightarrow> nat \<Rightarrow> 'a) \<Rightarrow> 'a Matrix2D" where
  "mat_of n g = map (\<lambda>i. map (\<lambda>j. g i j) [0..<n]) [0..<n]"

text \<open>The entries at the positions in \<open>S\<close> go through \<open>u\<close>; the others stay.\<close>

definition upd_on ::
  "(nat \<times> nat) set \<Rightarrow> (nat \<Rightarrow> nat \<Rightarrow> 'a \<Rightarrow> 'a) \<Rightarrow> (nat \<Rightarrow> nat \<Rightarrow> 'a) \<Rightarrow> nat \<Rightarrow> nat \<Rightarrow> 'a" where
  "upd_on S u g = (\<lambda>i j. if (i, j) \<in> S then u i j (g i j) else g i j)"

text \<open>
  The products \<open>A[i][k] * B[k][j]\<close> for \<open>k\<close> in \<open>ks\<close>, added to \<open>s\<close> one by one from left to
  right.
\<close>

definition mac ::
  "'a::{zero,plus,times} Matrix2D \<Rightarrow> 'a Matrix2D \<Rightarrow> nat \<Rightarrow> nat \<Rightarrow> nat list \<Rightarrow> 'a \<Rightarrow> 'a" where
  "mac A B i j ks s = foldl (\<lambda>s k. s + A ! i ! k * B ! k ! j) s ks"

text \<open>One Euler step of a body with acceleration \<open>a\<close>: the velocity first, then the position.\<close>

definition euler_body :: "'a::{plus,times} \<Rightarrow> 'a \<times> 'a \<Rightarrow> 'a Body \<Rightarrow> 'a Body" where
  "euler_body dt a b =
     b\<lparr>body_vx := body_vx b + fst a * dt,
       body_vy := body_vy b + snd a * dt,
       body_x := body_x b + (body_vx b + fst a * dt) * dt,
       body_y := body_y b + (body_vy b + snd a * dt) * dt\<rparr>"

text \<open>The accumulators of body \<open>i\<close> after the bodies \<open>js\<close>, from the value \<open>a\<close>.\<close>

definition accel_from ::
  "('a \<Rightarrow> 'a) \<Rightarrow> 'a::{zero,one,plus,minus,times,inverse} \<Rightarrow> 'a \<Rightarrow> 'a Body list \<Rightarrow> nat \<Rightarrow>
   nat list \<Rightarrow> 'a \<times> 'a \<Rightarrow> 'a \<times> 'a" where
  "accel_from sqrt_d G softening bs i js a = fold (accel_step_cy sqrt_d G softening bs i) js a"

text \<open>A dictionary after the write-back of body \<open>i\<close>.\<close>

definition written :: "'a Body list \<Rightarrow> nat \<Rightarrow> 'a py_dict \<Rightarrow> 'a py_dict" where
  "written body_array i d =
     d(''x'' \<mapsto> body_x (body_array ! i), ''y'' \<mapsto> body_y (body_array ! i),
       ''vx'' \<mapsto> body_vx (body_array ! i), ''vy'' \<mapsto> body_vy (body_array ! i))"

text \<open>A dictionary that holds the five fields of a body.\<close>

definition dict_holds :: "'a py_dict \<Rightarrow> 'a Body \<Rightarrow> bool" where
  "dict_holds d b \<longleftrightarrow>
     d ''x'' = Some (body_x b) \<and> d ''y'' = Some (body_y b) \<and>
     d ''vx'' = Some (body_vx b) \<and> d ''vy'' = Some (body_vy b) \<and> d ''m'' = Some (body_m b)"

text \<open>
  The last position of the list \<^verbatim>\<open>bodies\<close> that holds the reference \<open>r\<close>: the write-back
  runs through the positions upwards, so the last one decides what the dictionary holds.
\<close>

definition last_hit :: "nat list \<Rightarrow> nat \<Rightarrow> nat \<Rightarrow> nat option \<Rightarrow> nat option" where
  "last_hit refs r j acc = (if refs ! j = r then Some j else acc)"

definition last_index :: "nat list \<Rightarrow> nat \<Rightarrow> nat option" where
  "last_index refs r = fold (last_hit refs r) [0..<length refs] None"

text \<open>A store in which every reference holds a body at the origin with \<open>vx = 1\<close>, \<open>m = 1\<close>.\<close>

definition example_store :: "real py_store" where
  "example_store = (\<lambda>r. [''x'' \<mapsto> 0, ''y'' \<mapsto> 0, ''vx'' \<mapsto> 1, ''vy'' \<mapsto> 0, ''m'' \<mapsto> 1])"

text \<open>The value of a key of a dictionary after a call, \<open>None\<close> when the call raised.\<close>

definition stored_field ::
  "cy_error + ('a py_store \<times> nat list) \<Rightarrow> nat \<Rightarrow> string \<Rightarrow> 'a option" where
  "stored_field res r key = (case res of Inl e \<Rightarrow> None | Inr (h', out) \<Rightarrow> h' r key)"

text \<open>Two bodies at the same position.\<close>

definition example_bodies :: "real Body list" where
  "example_bodies =
     [\<lparr>body_x = 0, body_y = 0, body_vx = 1, body_vy = 0, body_m = 1\<rparr>,
      \<lparr>body_x = 0, body_y = 0, body_vx = 0, body_vy = 2, body_m = 3\<rparr>]"

text \<open>
  The ranges of a random body, as comparisons of doubles: the position in the closed
  square up to \<open>box_size\<close>, the velocity in \<open>[-1, 1]\<close>, the mass in \<open>[0.1, max_mass]\<close>.
\<close>

definition double_between :: "double \<Rightarrow> double \<Rightarrow> double \<Rightarrow> bool" where
  "double_between lo hi d \<longleftrightarrow> double_le lo d \<and> double_le d hi"

definition body_in_ranges :: "double \<Rightarrow> double \<Rightarrow> double Body \<Rightarrow> bool" where
  "body_in_ranges box_size max_mass b \<longleftrightarrow>
     double_between (Finite 0) box_size (body_x b) \<and>
     double_between (Finite 0) box_size (body_y b) \<and>
     double_between (Finite (- 1)) (Finite 1) (body_vx b) \<and>
     double_between (Finite (- 1)) (Finite 1) (body_vy b) \<and>
     double_between tenth max_mass (body_m b)"

text \<open>The same for a dictionary: the five keys are there, with values in these ranges.\<close>

definition dict_in_ranges :: "double \<Rightarrow> double \<Rightarrow> double py_dict \<Rightarrow> bool" where
  "dict_in_ranges box_size max_mass d \<longleftrightarrow>
     (case (d ''x'', d ''y'', d ''vx'', d ''vy'', d ''m'') of
        (Some x, Some y, Some vx, Some vy, Some m) \<Rightarrow>
          double_between (Finite 0) box_size x \<and> double_between (Finite 0) box_size y \<and>
          double_between (Finite (- 1)) (Finite 1) vx \<and> double_between (Finite (- 1)) (Finite 1) vy \<and>
          double_between tenth max_mass m
      | _ \<Rightarrow> False)"

text \<open>
  A random source whose every value is \<^verbatim>\<open>RAND_MAX = 32767\<close>, one that is always a half,
  and one that is always three quarters.
\<close>

definition always_max :: "nat \<Rightarrow> nat" where
  "always_max k = 32767"

definition half_units :: "nat \<Rightarrow> double" where
  "half_units k = Finite (1 / 2)"

definition three_quarter_units :: "nat \<Rightarrow> double" where
  "three_quarter_units k = Finite (3 / 4)"

text \<open>
  The binade of a number, the exponent that decides the spacing of the doubles around it,
  and a double that is a NaN or at least \<open>t\<close>.
\<close>

definition binade :: "real \<Rightarrow> int" where
  "binade x = max \<lfloor>log 2 \<bar>x\<bar>\<rfloor> (- 1022)"

definition nan_or_ge :: "real \<Rightarrow> double \<Rightarrow> bool" where
  "nan_or_ge t d \<longleftrightarrow> d = NaN \<or> double_le (Finite t) d"

section \<open>Matrix multiplication: proofs\<close>

lemma at2_square: "square n M \<Longrightarrow> i < n \<Longrightarrow> j < n \<Longrightarrow> at2 M i j = Some (M ! i ! j)"
  by (simp add: at2_def square_def list_all_length)

lemma square_mat_of: "square n (mat_of n g)"
  by (simp add: square_def mat_of_def list_all_length)

lemma mat_of_nth: "i < n \<Longrightarrow> j < n \<Longrightarrow> mat_of n g ! i ! j = g i j"
  by (simp add: mat_of_def)

lemma at2_mat_of: "i < n \<Longrightarrow> j < n \<Longrightarrow> at2 (mat_of n g) i j = Some (g i j)"
  by (simp add: at2_square [OF square_mat_of] mat_of_nth)

lemma mat_of_cong: "(\<And>i j. i < n \<Longrightarrow> j < n \<Longrightarrow> g i j = h i j) \<Longrightarrow> mat_of n g = mat_of n h"
  by (simp add: mat_of_def)

lemma put2_mat_of:
  assumes "i < n" "j < n"
  shows "put2 (mat_of n g) i j v = Some (mat_of n (upd_on {(i, j)} (\<lambda>_ _ _. v) g))"
proof -
  have "(mat_of n g)[i := (mat_of n g ! i)[j := v]] = mat_of n (upd_on {(i, j)} (\<lambda>_ _ _. v) g)"
    using assms
    by (auto simp: mat_of_def upd_on_def nth_list_update intro!: nth_equalityI)
  then show ?thesis using assms by (simp add: put2_def mat_of_def)
qed

lemma replicate_mat_of: "replicate n (replicate n z) = mat_of n (\<lambda>_ _. z)"
  by (auto simp: mat_of_def intro!: nth_equalityI)

lemma upd_on_disjoint: "S \<inter> T = {} \<Longrightarrow> upd_on T u (upd_on S u g) = upd_on (S \<union> T) u g"
  by (auto simp: upd_on_def fun_eq_iff)

lemma upd_on_same: "upd_on S u2 (upd_on S u1 g) = upd_on S (\<lambda>i j v. u2 i j (u1 i j v)) g"
  by (auto simp: upd_on_def fun_eq_iff)

lemma upd_on_empty: "upd_on {} u g = g"
  by (simp add: upd_on_def)

lemma for_each_upd_on:
  assumes step: "\<And>k g. k \<in> set ks \<Longrightarrow> body k (mat_of n g) = Some (mat_of n (upd_on (S k) u g))"
    and disj: "\<And>k k'. k \<in> set ks \<Longrightarrow> k' \<in> set ks \<Longrightarrow> k \<noteq> k' \<Longrightarrow> S k \<inter> S k' = {}"
    and dist: "distinct ks"
  shows "for_each ks body (mat_of n g) = Some (mat_of n (upd_on (\<Union>k\<in>set ks. S k) u g))"
  using assms
proof (induction ks arbitrary: g)
  case Nil
  then show ?case by (simp add: upd_on_empty)
next
  case (Cons k ks)
  have d: "S k \<inter> (\<Union>k'\<in>set ks. S k') = {}"
    using Cons.prems(2,3) by fastforce
  have "for_each (k # ks) body (mat_of n g) = for_each ks body (mat_of n (upd_on (S k) u g))"
    by (simp add: Cons.prems(1))
  also have "\<dots> = Some (mat_of n (upd_on (\<Union>k'\<in>set ks. S k') u (upd_on (S k) u g)))"
    using Cons.prems by (intro Cons.IH) auto
  also have "upd_on (\<Union>k'\<in>set ks. S k') u (upd_on (S k) u g) = upd_on (\<Union>k'\<in>set (k # ks). S k') u g"
    by (simp add: upd_on_disjoint [OF d])
  finally show ?case .
qed

lemma for_step_exact:
  assumes pos: "0 < step"
    and body: "\<And>i. i < n \<Longrightarrow> body i (F i) = Some (F (i + step))"
    and stop: "\<And>i. n \<le> i \<Longrightarrow> F i = F n"
  shows "for_step n step body i (F i) = Some (F n)"
proof (induction "n - i" arbitrary: i rule: less_induct)
  case less
  show ?case
  proof (cases "i < n")
    case True
    then have "n - (i + step) < n - i" using pos by arith
    then have "for_step n step body (i + step) (F (i + step)) = Some (F n)"
      by (rule less)
    then show ?thesis using True by (subst for_step.simps) (simp add: body)
  next
    case False
    then have "F i = F n" by (intro stop) simp
    then show ?thesis using False by (subst for_step.simps) simp
  qed
qed

lemma mac_loop:
  assumes "square n A" "square n B" "i < n" "j < n" "\<forall>k\<in>set ks. k < n"
  shows "for_each ks (\<lambda>k sum. do { a \<leftarrow> at2 A i k; b \<leftarrow> at2 B k j; Some (sum + a * b) }) s
         = Some (mac A B i j ks s)"
  using assms(5)
proof (induction ks arbitrary: s)
  case Nil
  then show ?case by (simp add: mac_def)
next
  case (Cons k ks)
  then show ?case using assms(1-4) by (simp add: at2_square mac_def)
qed


lemma mac_append: "mac A B i j (ks @ ls) s = mac A B i j ls (mac A B i j ks s)"
  by (simp add: mac_def)

lemma mac_Nil: "mac A B i j [] s = s"
  by (simp add: mac_def)

lemma put2_upd_on:
  assumes "i < n" "j < n"
  shows "put2 (mat_of n g) i j (u i j (g i j)) = Some (mat_of n (upd_on {(i, j)} u g))"
proof -
  have "upd_on {(i, j)} (\<lambda>_ _ _. u i j (g i j)) g = upd_on {(i, j)} u g"
    by (auto simp: upd_on_def fun_eq_iff)
  then show ?thesis using put2_mat_of [OF assms, of g "u i j (g i j)"] by simp
qed

lemma upd_on_id: "upd_on S (\<lambda>_ _ v. v) g = g"
  by (auto simp: upd_on_def fun_eq_iff)

lemma upd_on_all: "mat_of n (upd_on ({0..<n} \<times> {0..<n}) u g) = mat_of n (\<lambda>i j. u i j (g i j))"
  by (rule mat_of_cong) (simp add: upd_on_def)

subsection \<open>The naive kernel\<close>

lemma naive_cell:
  assumes "square n A" "square n B" "i < n" "j < n"
  shows "do { sum \<leftarrow> for_each [0..<n] (\<lambda>k sum. do {
                        a \<leftarrow> at2 A i k;
                        b \<leftarrow> at2 B k j;
                        Some (sum + a * b) }) 0;
               put2 (mat_of n g) i j sum }
         = Some (mat_of n (upd_on {(i, j)} (\<lambda>i j _. mac A B i j [0..<n] 0) g))"
  using assms
  by (simp add: mac_loop [OF assms] put2_upd_on [where u = "\<lambda>i j _. mac A B i j [0..<n] 0"])

lemma naive_row:
  assumes "square n A" "square n B" "i < n"
  shows "for_each [0..<n] (\<lambda>j C. do {
               sum \<leftarrow> for_each [0..<n] (\<lambda>k sum. do {
                        a \<leftarrow> at2 A i k;
                        b \<leftarrow> at2 B k j;
                        Some (sum + a * b) }) 0;
               put2 C i j sum }) (mat_of n g)
         = Some (mat_of n (upd_on ({i} \<times> {0..<n}) (\<lambda>i j _. mac A B i j [0..<n] 0) g))"
proof -
  have u: "(\<Union>j\<in>set [0..<n]. {(i, j)}) = {i} \<times> {0..<n}" by auto
  show ?thesis
    unfolding u [symmetric]
    by (rule for_each_upd_on) (auto simp: naive_cell [OF assms])
qed

lemma matmul_naive_eq:
  assumes "square n A" "square n B"
  shows "matmul_naive A B = Some (mat_of n (\<lambda>i j. mac A B i j [0..<n] 0))"
proof (cases "n = 0")
  case True
  then show ?thesis using assms by (simp add: matmul_naive_def square_def mat_of_def)
next
  case False
  then have ne: "A \<noteq> []" "B \<noteq> []" and len: "length A = n"
    using assms by (auto simp: square_def)
  have u: "(\<Union>i\<in>set [0..<n]. {i} \<times> {0..<n}) = {0..<n} \<times> {0..<n}" by auto
  have "for_each [0..<n] (\<lambda>i C.
             for_each [0..<n] (\<lambda>j C. do {
               sum \<leftarrow> for_each [0..<n] (\<lambda>k sum. do {
                        a \<leftarrow> at2 A i k;
                        b \<leftarrow> at2 B k j;
                        Some (sum + a * b) }) 0;
               put2 C i j sum }) C) (mat_of n (\<lambda>_ _. 0))
        = Some (mat_of n (upd_on ({0..<n} \<times> {0..<n}) (\<lambda>i j _. mac A B i j [0..<n] 0) (\<lambda>_ _. 0)))"
    unfolding u [symmetric]
    by (rule for_each_upd_on) (auto simp: naive_row [OF assms])
  then show ?thesis
    using ne len by (simp add: matmul_naive_def replicate_mat_of upd_on_all)
qed

subsection \<open>The transposed kernel\<close>

lemma transpose_fill_row:
  assumes "square n B" "i < n"
  shows "for_each [0..<n] (\<lambda>j B_T. do {
                     b \<leftarrow> at2 B i j;
                     put2 B_T j i b }) (mat_of n g)
         = Some (mat_of n (upd_on ({0..<n} \<times> {i}) (\<lambda>j i _. B ! i ! j) g))"
proof -
  have u: "(\<Union>j\<in>set [0..<n]. {(j, i)}) = {0..<n} \<times> {i}" by auto
  show ?thesis
    unfolding u [symmetric]
    by (rule for_each_upd_on)
       (auto simp: at2_square [OF assms(1)] assms(2) put2_upd_on [where u = "\<lambda>j i _. B ! i ! j"])
qed

lemma transpose_fill:
  assumes "square n B"
  shows "for_each [0..<n] (\<lambda>i B_T.
                   for_each [0..<n] (\<lambda>j B_T. do {
                     b \<leftarrow> at2 B i j;
                     put2 B_T j i b }) B_T) (mat_of n (\<lambda>_ _. 0))
         = Some (mat_of n (\<lambda>j i. B ! i ! j))"
proof -
  have u: "(\<Union>i\<in>set [0..<n]. {0..<n} \<times> {i}) = {0..<n} \<times> {0..<n}" by auto
  have "for_each [0..<n] (\<lambda>i B_T.
                   for_each [0..<n] (\<lambda>j B_T. do {
                     b \<leftarrow> at2 B i j;
                     put2 B_T j i b }) B_T) (mat_of n (\<lambda>_ _. 0))
        = Some (mat_of n (upd_on ({0..<n} \<times> {0..<n}) (\<lambda>j i _. B ! i ! j) (\<lambda>_ _. 0)))"
    unfolding u [symmetric]
    by (rule for_each_upd_on) (auto simp: transpose_fill_row [OF assms])
  then show ?thesis by (simp add: upd_on_all)
qed

lemma mac_loop_transposed:
  assumes "square n A" "i < n" "j < n" "\<forall>k\<in>set ks. k < n"
  shows "for_each ks (\<lambda>k sum. do {
            a \<leftarrow> at2 A i k;
            b \<leftarrow> at2 (mat_of n (\<lambda>j i. B ! i ! j)) j k;
            Some (sum + a * b) }) s
         = Some (mac A B i j ks s)"
  using assms(4)
proof (induction ks arbitrary: s)
  case Nil
  then show ?case by (simp add: mac_def)
next
  case (Cons k ks)
  then show ?case using assms(1-3) by (simp add: at2_square at2_mat_of mac_def)
qed

lemma transpose_row:
  assumes "square n A" "i < n"
  shows "for_each [0..<n] (\<lambda>j C. do {
              sum \<leftarrow> for_each [0..<n] (\<lambda>k sum. do {
                       a \<leftarrow> at2 A i k;
                       b \<leftarrow> at2 (mat_of n (\<lambda>j i. B ! i ! j)) j k;
                       Some (sum + a * b) }) 0;
              put2 C i j sum }) (mat_of n g)
         = Some (mat_of n (upd_on ({i} \<times> {0..<n}) (\<lambda>i j _. mac A B i j [0..<n] 0) g))"
proof -
  have u: "(\<Union>j\<in>set [0..<n]. {(i, j)}) = {i} \<times> {0..<n}" by auto
  show ?thesis
    unfolding u [symmetric]
    by (rule for_each_upd_on)
       (auto simp: mac_loop_transposed [OF assms(1)] assms(2)
          put2_upd_on [where u = "\<lambda>i j _. mac A B i j [0..<n] 0"])
qed

lemma matmul_transpose_eq:
  assumes "square n A" "square n B"
  shows "matmul_transpose A B = Some (mat_of n (\<lambda>i j. mac A B i j [0..<n] 0))"
proof (cases "n = 0")
  case True
  then show ?thesis using assms by (simp add: matmul_transpose_def square_def mat_of_def)
next
  case False
  then have ne: "A \<noteq> []" "B \<noteq> []" and len: "length A = n"
    using assms by (auto simp: square_def)
  have u: "(\<Union>i\<in>set [0..<n]. {i} \<times> {0..<n}) = {0..<n} \<times> {0..<n}" by auto
  have "for_each [0..<n] (\<lambda>i C.
            for_each [0..<n] (\<lambda>j C. do {
              sum \<leftarrow> for_each [0..<n] (\<lambda>k sum. do {
                       a \<leftarrow> at2 A i k;
                       b \<leftarrow> at2 (mat_of n (\<lambda>j i. B ! i ! j)) j k;
                       Some (sum + a * b) }) 0;
              put2 C i j sum }) C) (mat_of n (\<lambda>_ _. 0))
        = Some (mat_of n (upd_on ({0..<n} \<times> {0..<n}) (\<lambda>i j _. mac A B i j [0..<n] 0) (\<lambda>_ _. 0)))"
    unfolding u [symmetric]
    by (rule for_each_upd_on) (auto simp: transpose_row [OF assms(1)])
  then show ?thesis
    using ne len
    by (simp add: matmul_transpose_def replicate_mat_of transpose_fill [OF assms(2)] upd_on_all)
qed


subsection \<open>The blocked kernel\<close>

lemma block_cell:
  assumes "square n A" "square n B" "i < n" "j < n" "hi \<le> n"
  shows "do { sum0 \<leftarrow> at2 (mat_of n g) i j;
             sum \<leftarrow> for_each [lo..<hi] (\<lambda>k sum. do {
                      a \<leftarrow> at2 A i k;
                      b \<leftarrow> at2 B k j;
                      Some (sum + a * b) }) sum0;
             put2 (mat_of n g) i j sum }
         = Some (mat_of n (upd_on {(i, j)} (\<lambda>i j v. mac A B i j [lo..<hi] v) g))"
proof -
  have "\<forall>k\<in>set [lo..<hi]. k < n" using assms(5) by simp
  then show ?thesis
    using assms(3,4)
    by (simp add: at2_mat_of mac_loop [OF assms(1-4)]
          put2_upd_on [where u = "\<lambda>i j v. mac A B i j [lo..<hi] v"])
qed

lemma block_row:
  assumes "square n A" "square n B" "i < n" "jhi \<le> n" "hi \<le> n"
  shows "for_each [jlo..<jhi] (\<lambda>j C. do {
             sum0 \<leftarrow> at2 C i j;
             sum \<leftarrow> for_each [lo..<hi] (\<lambda>k sum. do {
                      a \<leftarrow> at2 A i k;
                      b \<leftarrow> at2 B k j;
                      Some (sum + a * b) }) sum0;
             put2 C i j sum }) (mat_of n g)
         = Some (mat_of n (upd_on ({i} \<times> {jlo..<jhi}) (\<lambda>i j v. mac A B i j [lo..<hi] v) g))"
proof -
  have u: "(\<Union>j\<in>set [jlo..<jhi]. {(i, j)}) = {i} \<times> {jlo..<jhi}" by auto
  show ?thesis
    unfolding u [symmetric]
  proof (rule for_each_upd_on)
    fix j g assume "j \<in> set [jlo..<jhi]"
    then have "j < n" using assms(4) by simp
    then show "do { sum0 \<leftarrow> at2 (mat_of n g) i j;
             sum \<leftarrow> for_each [lo..<hi] (\<lambda>k sum. do {
                      a \<leftarrow> at2 A i k;
                      b \<leftarrow> at2 B k j;
                      Some (sum + a * b) }) sum0;
             put2 (mat_of n g) i j sum }
         = Some (mat_of n (upd_on {(i, j)} (\<lambda>i j v. mac A B i j [lo..<hi] v) g))"
      by (rule block_cell [OF assms(1-3) _ assms(5)])
  qed auto
qed

lemma process_block_eq:
  assumes "square n A" "square n B"
  shows "process_block A B n bs ii jj kk (mat_of n g)
         = Some (mat_of n (upd_on ({ii..<min (ii + bs) n} \<times> {jj..<min (jj + bs) n})
                             (\<lambda>i j v. mac A B i j [kk..<min (kk + bs) n] v) g))"
proof -
  have u: "(\<Union>i\<in>set [ii..<min (ii + bs) n]. {i} \<times> {jj..<min (jj + bs) n})
           = {ii..<min (ii + bs) n} \<times> {jj..<min (jj + bs) n}" by auto
  show ?thesis
    unfolding process_block_def Let_def u [symmetric]
  proof (rule for_each_upd_on)
    fix i g assume "i \<in> set [ii..<min (ii + bs) n]"
    then have "i < n" by simp
    then show "for_each [jj..<min (jj + bs) n] (\<lambda>j C. do {
             sum0 \<leftarrow> at2 C i j;
             sum \<leftarrow> for_each [kk..<min (kk + bs) n] (\<lambda>k sum. do {
                      a \<leftarrow> at2 A i k;
                      b \<leftarrow> at2 B k j;
                      Some (sum + a * b) }) sum0;
             put2 C i j sum }) (mat_of n g)
         = Some (mat_of n (upd_on ({i} \<times> {jj..<min (jj + bs) n})
                (\<lambda>i j v. mac A B i j [kk..<min (kk + bs) n] v) g))"
      by (intro block_row [OF assms]) simp_all
  qed auto
qed

lemma mac_upt_split:
  assumes "lo \<le> mid" "mid \<le> hi"
  shows "mac A B i j [mid..<hi] (mac A B i j [lo..<mid] v) = mac A B i j [lo..<hi] v"
proof -
  have "[lo..<hi] = [lo..<mid] @ [mid..<hi]"
    using assms by (metis le_Suc_ex upt_add_eq_append)
  then show ?thesis by (simp add: mac_append)
qed

lemma kk_loop:
  assumes "0 < bs" "square n A" "square n B"
  shows "for_step n bs (\<lambda>kk C. process_block A B n bs ii jj kk C) 0 (mat_of n g)
         = Some (mat_of n (upd_on ({ii..<min (ii + bs) n} \<times> {jj..<min (jj + bs) n})
                             (\<lambda>i j v. mac A B i j [0..<n] v) g))"
proof -
  define T where "T = {ii..<min (ii + bs) n} \<times> {jj..<min (jj + bs) n}"
  define F where "F kk = mat_of n (upd_on T (\<lambda>i j v. mac A B i j [0..<min kk n] v) g)" for kk
  have "for_step n bs (\<lambda>kk C. process_block A B n bs ii jj kk C) 0 (F 0) = Some (F n)"
  proof (rule for_step_exact [OF assms(1)])
    fix kk assume kk: "kk < n"
    have "upd_on T (\<lambda>i j v. mac A B i j [kk..<min (kk + bs) n] v)
            (upd_on T (\<lambda>i j v. mac A B i j [0..<min kk n] v) g)
          = upd_on T (\<lambda>i j v. mac A B i j [0..<min (kk + bs) n] v) g"
      using kk by (simp add: upd_on_same mac_upt_split min_def)
    then show "process_block A B n bs ii jj kk (F kk) = Some (F (kk + bs))"
      by (simp add: F_def process_block_eq [OF assms(2,3)] T_def)
  next
    fix kk assume "n \<le> kk"
    then show "F kk = F n" by (simp add: F_def min_def)
  qed
  moreover have "F 0 = mat_of n g" by (simp add: F_def mac_Nil upd_on_id)
  ultimately show ?thesis by (simp add: F_def T_def)
qed

lemma jj_loop:
  assumes "0 < bs" "square n A" "square n B"
  shows "for_step n bs (\<lambda>jj C.
           for_step n bs (\<lambda>kk C. process_block A B n bs ii jj kk C) 0 C) 0 (mat_of n g)
         = Some (mat_of n (upd_on ({ii..<min (ii + bs) n} \<times> {0..<n})
                             (\<lambda>i j v. mac A B i j [0..<n] v) g))"
proof -
  define U where "U = (\<lambda>i j v. mac A B i j [0..<n] v)"
  define F where "F jj = mat_of n (upd_on ({ii..<min (ii + bs) n} \<times> {0..<min jj n}) U g)" for jj
  have "for_step n bs (\<lambda>jj C.
           for_step n bs (\<lambda>kk C. process_block A B n bs ii jj kk C) 0 C) 0 (F 0) = Some (F n)"
  proof (rule for_step_exact [OF assms(1)])
    fix jj assume jj: "jj < n"
    have "{ii..<min (ii + bs) n} \<times> {0..<min jj n} \<inter> {ii..<min (ii + bs) n} \<times> {jj..<min (jj + bs) n} = {}"
      using jj by auto
    moreover have "{ii..<min (ii + bs) n} \<times> {0..<min jj n} \<union> {ii..<min (ii + bs) n} \<times> {jj..<min (jj + bs) n}
        = {ii..<min (ii + bs) n} \<times> {0..<min (jj + bs) n}"
      using jj by auto
    ultimately have "upd_on ({ii..<min (ii + bs) n} \<times> {jj..<min (jj + bs) n}) U
            (upd_on ({ii..<min (ii + bs) n} \<times> {0..<min jj n}) U g)
          = upd_on ({ii..<min (ii + bs) n} \<times> {0..<min (jj + bs) n}) U g"
      by (simp add: upd_on_disjoint)
    then show "for_step n bs (\<lambda>kk C. process_block A B n bs ii jj kk C) 0 (F jj) = Some (F (jj + bs))"
      by (simp add: F_def kk_loop [OF assms] U_def)
  next
    fix jj assume "n \<le> jj"
    then show "F jj = F n" by (simp add: F_def min_def)
  qed
  moreover have "F 0 = mat_of n g" by (simp add: F_def upd_on_empty)
  ultimately show ?thesis by (simp add: F_def U_def)
qed

lemma matmul_blocked_eq:
  assumes "0 < bs" "square n A" "square n B"
  shows "matmul_blocked A B bs = Some (mat_of n (\<lambda>i j. mac A B i j [0..<n] 0))"
proof (cases "n = 0")
  case True
  then show ?thesis using assms by (simp add: matmul_blocked_def square_def mat_of_def)
next
  case False
  then have ne: "A \<noteq> []" "B \<noteq> []" and len: "length A = n"
    using assms by (auto simp: square_def)
  define U where "U = (\<lambda>i j v. mac A B i j [0..<n] v)"
  define F where "F ii = mat_of n (upd_on ({0..<min ii n} \<times> {0..<n}) U (\<lambda>_ _. 0))" for ii
  have "for_step n bs (\<lambda>ii C.
             for_step n bs (\<lambda>jj C.
               for_step n bs (\<lambda>kk C.
                 process_block A B n bs ii jj kk C) 0 C) 0 C) 0 (F 0) = Some (F n)"
  proof (rule for_step_exact [OF assms(1)])
    fix ii assume ii: "ii < n"
    have "{0..<min ii n} \<times> {0..<n} \<inter> {ii..<min (ii + bs) n} \<times> {0..<n} = {}"
      using ii by auto
    moreover have "{0..<min ii n} \<times> {0..<n} \<union> {ii..<min (ii + bs) n} \<times> {0..<n}
        = {0..<min (ii + bs) n} \<times> {0..<n}"
      using ii by auto
    ultimately have "upd_on ({ii..<min (ii + bs) n} \<times> {0..<n}) U
            (upd_on ({0..<min ii n} \<times> {0..<n}) U (\<lambda>_ _. 0))
          = upd_on ({0..<min (ii + bs) n} \<times> {0..<n}) U (\<lambda>_ _. 0)"
      by (simp add: upd_on_disjoint)
    then show "for_step n bs (\<lambda>jj C.
               for_step n bs (\<lambda>kk C.
                 process_block A B n bs ii jj kk C) 0 C) 0 (F ii) = Some (F (ii + bs))"
      by (simp add: F_def jj_loop [OF assms] U_def)
  next
    fix ii assume "n \<le> ii"
    then show "F ii = F n" by (simp add: F_def min_def)
  qed
  moreover have "F 0 = mat_of n (\<lambda>_ _. 0)" by (simp add: F_def upd_on_empty)
  moreover have "F n = mat_of n (\<lambda>i j. mac A B i j [0..<n] 0)"
    by (simp add: F_def upd_on_all U_def)
  ultimately show ?thesis
    using ne len by (simp add: matmul_blocked_def replicate_mat_of)
qed



text \<open>With the block size 0 the blocked kernel does not return.\<close>

lemma for_step_zero_Some:
  assumes "for_step n step body i s = Some y"
  shows "\<not> (step = 0 \<and> i < n)"
proof (rule for_step.raw_induct [OF _ assms])
  fix f :: "nat \<Rightarrow> nat \<Rightarrow> (nat \<Rightarrow> 'a \<Rightarrow> 'a option) \<Rightarrow> nat \<Rightarrow> 'a \<Rightarrow> 'a option"
    and n step body i s y
  assume IH: "\<And>n step body i s y. f n step body i s = Some y \<Longrightarrow> \<not> (step = 0 \<and> i < n)"
    and eq: "(if i < n then Option.bind (body i s) (\<lambda>s'. f n step body (i + step) s') else Some s) = Some y"
  show "\<not> (step = 0 \<and> i < n)"
  proof
    assume a: "step = 0 \<and> i < n"
    then obtain s' where "f n step body (i + step) s' = Some y"
      using eq by (auto split: Option.bind_splits)
    from IH [OF this] a show False by simp
  qed
qed

lemma for_step_zero: "i < n \<Longrightarrow> for_step n 0 body i s = None"
  using for_step_zero_Some [of n 0 body i s] by (cases "for_step n 0 body i s") auto

lemma matmul_blocked_zero:
  assumes "A \<noteq> []" "B \<noteq> []"
  shows "matmul_blocked A B 0 = None"
  using assms by (simp add: matmul_blocked_def for_step_zero)

subsection \<open>The claims on matrix multiplication\<close>

lemma square_eq_mat_of: "square n M \<Longrightarrow> M = mat_of n (\<lambda>i j. M ! i ! j)"
  by (auto simp: square_def mat_of_def list_all_length intro!: nth_equalityI)

text \<open>
  Claim C4. For two \<open>n\<close> by \<open>n\<close> matrices, \<open>n \<ge> 0\<close>, \<^verbatim>\<open>matmul_naive\<close> returns an \<open>n\<close> by
  \<open>n\<close> matrix \<open>C\<close> in which \<open>C[i][j]\<close> is the sum of the products \<open>A[i][k] * B[k][j]\<close>, added
  to 0 in increasing order of \<open>k\<close>; for \<open>n = 0\<close> the result is the empty matrix, not a failure.
\<close>

theorem matmul_naive_sums:
  assumes "square n A" "square n B"
  shows "\<exists>C. matmul_naive A B = Some C \<and> square n C \<and> (n = 0 \<longrightarrow> C = []) \<and>
           (\<forall>i<n. \<forall>j<n. C ! i ! j = foldl (\<lambda>sum k. sum + A ! i ! k * B ! k ! j) 0 [0..<n])"
  by (simp add: matmul_naive_eq [OF assms] square_mat_of mat_of_nth mac_def) (simp add: mat_of_def)

theorem matmul_naive_sums_witness:
  "square 2 [[1, 2], [3, 4::int]] \<and> square 2 [[5, 6], [7, 8::int]] \<and>
   (\<exists>C. matmul_naive [[1, 2], [3, 4::int]] [[5, 6], [7, 8]] = Some C \<and> square 2 C \<and>
      C ! 1 ! 0 = foldl (\<lambda>sum k. sum + [[1, 2], [3, 4]] ! 1 ! k * [[5, 6], [7, 8]] ! k ! 0) 0 [0..<2])"
  using matmul_naive_sums [of 2 "[[1, 2], [3, 4::int]]" "[[5, 6], [7, 8]]"]
  by (auto simp: square_def)

text \<open>
  Claim C1. For square matrices of the same size and a block size of at least 1, the
  naive, the blocked and the transposed kernel return the same matrix, entry for entry.
  The entries are of any type with \<open>0\<close>, \<open>+\<close> and \<open>*\<close>: no law of arithmetic is used, so the
  results are the same bit for bit on doubles. Each entry is reached by the same additions
  in the same order in the three kernels.
\<close>

theorem matmul_strategies_agree:
  assumes "1 \<le> block_size" "square n A" "square n B"
  shows "matmul_blocked A B block_size = matmul_naive A B \<and>
         matmul_transpose A B = matmul_naive A B \<and>
         matmul_naive A B \<noteq> None"
  using assms
  by (simp add: matmul_naive_eq [OF assms(2,3)] matmul_transpose_eq [OF assms(2,3)]
        matmul_blocked_eq [OF _ assms(2,3)])

theorem matmul_strategies_agree_witness:
  "(1::nat) \<le> 2 \<and> square 3 [[1, 2, 3], [3, 4, 5], [1, 1, 1::int]] \<and>
   square 3 [[5, 6, 1], [7, 8, 1], [1, 2, 3::int]] \<and>
   matmul_blocked [[1, 2, 3], [3, 4, 5], [1, 1, 1::int]] [[5, 6, 1], [7, 8, 1], [1, 2, 3]] 2
     = matmul_naive [[1, 2, 3], [3, 4, 5], [1, 1, 1]] [[5, 6, 1], [7, 8, 1], [1, 2, 3]] \<and>
   matmul_transpose [[1, 2, 3], [3, 4, 5], [1, 1, 1::int]] [[5, 6, 1], [7, 8, 1], [1, 2, 3]]
     = matmul_naive [[1, 2, 3], [3, 4, 5], [1, 1, 1]] [[5, 6, 1], [7, 8, 1], [1, 2, 3]]"
  using matmul_strategies_agree [of 2 3 "[[1, 2, 3], [3, 4, 5], [1, 1, 1::int]]"
      "[[5, 6, 1], [7, 8, 1], [1, 2, 3]]"]
  by (simp add: square_def)

text \<open>
  Claim C8. For a block size of at least 1 and two \<open>n\<close> by \<open>n\<close> matrices, \<^verbatim>\<open>matmul_blocked\<close>
  returns an \<open>n\<close> by \<open>n\<close> matrix whose entry \<open>i\<close>, \<open>j\<close> is the sum over all \<open>k\<close> below \<open>n\<close>:
  no tile is left out and none is counted twice, whether or not \<open>block_size\<close> divides \<open>n\<close>.
  A tile that starts at \<open>ii\<close>, \<open>jj\<close>, \<open>kk\<close> is clipped to \<open>min (start + block_size) n\<close>:
  processing it reads and writes in range wherever it starts, every entry \<open>i\<close>, \<open>j\<close> of the
  clipped tile receives the products for the \<open>k\<close> from \<open>kk\<close> up to, and without,
  \<open>min (kk + block_size) n\<close>, in this order, and every other entry stays as it was.
\<close>

theorem matmul_blocked_returns_clipped:
  fixes A :: "'a::{zero,plus,times} Matrix2D"
  assumes "1 \<le> block_size" "square n A" "square n B"
  shows "(\<exists>C. matmul_blocked A B block_size = Some C \<and> square n C \<and>
            (\<forall>i<n. \<forall>j<n. C ! i ! j = foldl (\<lambda>sum k. sum + A ! i ! k * B ! k ! j) 0 [0..<n])) \<and>
         (\<forall>C ii jj kk. square n C \<longrightarrow>
            (\<exists>C'. process_block A B n block_size ii jj kk C = Some C' \<and> square n C' \<and>
               (\<forall>i<n. \<forall>j<n.
                  C' ! i ! j =
                    (if ii \<le> i \<and> i < min (ii + block_size) n \<and> jj \<le> j \<and> j < min (jj + block_size) n
                     then foldl (\<lambda>sum k. sum + A ! i ! k * B ! k ! j) (C ! i ! j)
                            [kk..<min (kk + block_size) n]
                     else C ! i ! j))))"
proof (intro conjI allI impI)
  show "\<exists>C. matmul_blocked A B block_size = Some C \<and> square n C \<and>
            (\<forall>i<n. \<forall>j<n. C ! i ! j = foldl (\<lambda>sum k. sum + A ! i ! k * B ! k ! j) 0 [0..<n])"
    using assms by (simp add: matmul_blocked_eq [OF _ assms(2,3)] square_mat_of mat_of_nth mac_def)
next
  fix C :: "'a Matrix2D" and ii jj kk assume "square n C"
  then have C: "C = mat_of n (\<lambda>i j. C ! i ! j)" by (rule square_eq_mat_of)
  have "\<exists>C'. process_block A B n block_size ii jj kk (mat_of n (\<lambda>i j. C ! i ! j)) = Some C' \<and> square n C' \<and>
               (\<forall>i<n. \<forall>j<n.
                  C' ! i ! j =
                    (if ii \<le> i \<and> i < min (ii + block_size) n \<and> jj \<le> j \<and> j < min (jj + block_size) n
                     then foldl (\<lambda>sum k. sum + A ! i ! k * B ! k ! j) (C ! i ! j)
                            [kk..<min (kk + block_size) n]
                     else C ! i ! j))"
    by (subst process_block_eq [OF assms(2,3)])
       (auto simp: square_mat_of mat_of_nth upd_on_def mac_def)
  then show "\<exists>C'. process_block A B n block_size ii jj kk C = Some C' \<and> square n C' \<and>
               (\<forall>i<n. \<forall>j<n.
                  C' ! i ! j =
                    (if ii \<le> i \<and> i < min (ii + block_size) n \<and> jj \<le> j \<and> j < min (jj + block_size) n
                     then foldl (\<lambda>sum k. sum + A ! i ! k * B ! k ! j) (C ! i ! j)
                            [kk..<min (kk + block_size) n]
                     else C ! i ! j))"
    using C by simp
qed

theorem matmul_blocked_returns_clipped_witness:
  "(1::nat) \<le> 2 \<and> square 3 [[1, 2, 3], [3, 4, 5], [1, 1, 1::int]] \<and>
   square 3 [[5, 6, 1], [7, 8, 1], [1, 2, 3::int]] \<and>
   square 3 [[0, 0, 0], [0, 0, 0], [0, 0, 0::int]] \<and>
   (\<exists>C. matmul_blocked [[1, 2, 3], [3, 4, 5], [1, 1, 1::int]] [[5, 6, 1], [7, 8, 1], [1, 2, 3]] 2
           = Some C \<and> square 3 C \<and> C ! 2 ! 2 = 5) \<and>
   (\<exists>C'. process_block [[1, 2, 3], [3, 4, 5], [1, 1, 1::int]] [[5, 6, 1], [7, 8, 1], [1, 2, 3]] 3 2 2 2 2
            [[0, 0, 0], [0, 0, 0], [0, 0, 0]] = Some C' \<and> C' ! 2 ! 2 = 3 \<and> C' ! 1 ! 2 = 0)"
proof -
  have h: "(1::nat) \<le> 2" "square 3 [[1, 2, 3], [3, 4, 5], [1, 1, 1::int]]"
    "square 3 [[5, 6, 1], [7, 8, 1], [1, 2, 3::int]]"
    by (simp_all add: square_def)
  have z: "square 3 [[0, 0, 0], [0, 0, 0], [0, 0, 0::int]]" by (simp add: square_def)
  note T = matmul_blocked_returns_clipped [OF h]
  from T
  obtain C where C: "matmul_blocked [[1, 2, 3], [3, 4, 5], [1, 1, 1::int]] [[5, 6, 1], [7, 8, 1], [1, 2, 3]] 2 = Some C"
    "square 3 C"
    "\<forall>i<3. \<forall>j<3. C ! i ! j = foldl (\<lambda>sum k. sum + [[1, 2, 3], [3, 4, 5], [1, 1, 1::int]] ! i ! k * [[5, 6, 1], [7, 8, 1], [1, 2, 3]] ! k ! j) 0 [0..<3]"
    by blast
  from C(3) have c: "C ! 2 ! 2 = 5" by (simp add: upt_rec numeral_3_eq_3)
  from T [THEN conjunct2, rule_format, OF z, of 2 2 2]
  obtain C' where C': "process_block [[1, 2, 3], [3, 4, 5], [1, 1, 1::int]] [[5, 6, 1], [7, 8, 1], [1, 2, 3]] 3 2 2 2 2
            [[0, 0, 0], [0, 0, 0], [0, 0, 0]] = Some C'"
    "\<forall>i<3. \<forall>j<3. C' ! i ! j =
        (if 2 \<le> i \<and> i < min (2 + 2) 3 \<and> 2 \<le> j \<and> j < min (2 + 2) 3
         then foldl (\<lambda>sum k. sum + [[1, 2, 3], [3, 4, 5], [1, 1, 1::int]] ! i ! k * [[5, 6, 1], [7, 8, 1], [1, 2, 3]] ! k ! j)
                ([[0, 0, 0], [0, 0, 0], [0, 0, 0]] ! i ! j) [2..<min (2 + 2) 3]
         else [[0, 0, 0], [0, 0, 0], [0, 0, 0]] ! i ! j)"
    by blast
  from C'(2) [rule_format, of 2 2] have a: "C' ! 2 ! 2 = 3" by (simp add: upt_rec)
  from C'(2) [rule_format, of 1 2] have b: "C' ! 1 ! 2 = 0" by simp
  from C(1,2) c C'(1) a b h z show ?thesis by blast
qed


section \<open>N-body step: proofs\<close>

lemma map_upt_update:
  "k < N \<Longrightarrow> (map f [0..<N])[k := v] = map (\<lambda>i. if i = k then v else f i) [0..<N]"
  by (auto intro!: nth_equalityI simp: nth_list_update)

lemma accel_from_Nil: "accel_from sqrt_d G softening bs i [] a = a"
  by (simp add: accel_from_def)

lemma accel_from_Cons:
  "accel_from sqrt_d G softening bs i (j # js) a =
     accel_from sqrt_d G softening bs i js
       (if i = j then a
        else (fst a + fst (pair_accel sqrt_d G softening (bs ! i) (bs ! j)),
              snd a + snd (pair_accel sqrt_d G softening (bs ! i) (bs ! j))))"
  by (simp add: accel_from_def accel_step_cy_def split_beta)

lemma accel_from_all:
  "length bs = N \<Longrightarrow>
   accel_from sqrt_d G softening bs i [0..<N] (0, 0) = accel_cy sqrt_d G softening bs i"
  by (auto simp: accel_cy_def accel_from_def)

lemma accel_pair_step_eq:
  "accel_pair_step sqrt_d G softening i j st =
     (if i = j then st
      else st\<lparr>ax := (ax st)[i := ax st ! i + fst (pair_accel sqrt_d G softening (bodies st ! i) (bodies st ! j))],
              ay := (ay st)[i := ay st ! i + snd (pair_accel sqrt_d G softening (bodies st ! i) (bodies st ! j))]\<rparr>)"
  by (simp add: accel_pair_step_def split_beta Let_def)

lemma accel_inner:
  assumes "i < length (ax st)" "i < length (ay st)"
  shows "fold (\<lambda>j st. accel_pair_step sqrt_d G softening i j st) js st
         = st\<lparr>ax := (ax st)[i := fst (accel_from sqrt_d G softening (bodies st) i js (ax st ! i, ay st ! i))],
              ay := (ay st)[i := snd (accel_from sqrt_d G softening (bodies st) i js (ax st ! i, ay st ! i))]\<rparr>"
  using assms
proof (induction js arbitrary: st)
  case Nil
  then show ?case by (simp add: accel_from_Nil)
next
  case (Cons j js)
  define st' where "st' = accel_pair_step sqrt_d G softening i j st"
  have len: "i < length (ax st')" "i < length (ay st')"
    using Cons.prems by (simp_all add: st'_def accel_pair_step_eq)
  have "fold (\<lambda>j st. accel_pair_step sqrt_d G softening i j st) (j # js) st
        = fold (\<lambda>j st. accel_pair_step sqrt_d G softening i j st) js st'"
    by (simp add: st'_def)
  also note Cons.IH [OF len]
  finally show ?case
    using Cons.prems
    by (simp add: st'_def accel_pair_step_eq accel_from_Cons)
qed

lemma accel_loop_prefix:
  assumes "k \<le> N" "length bs = N"
  shows "fold (\<lambda>i st. fold (\<lambda>j st. accel_pair_step sqrt_d G softening i j st) [0..<N] st) [0..<k]
           \<lparr>bodies = bs, updated_bodies = us, ax = replicate N 0, ay = replicate N 0\<rparr>
         = \<lparr>bodies = bs, updated_bodies = us,
            ax = map (\<lambda>i. if i < k then fst (accel_cy sqrt_d G softening bs i) else 0) [0..<N],
            ay = map (\<lambda>i. if i < k then snd (accel_cy sqrt_d G softening bs i) else 0) [0..<N]\<rparr>"
  using assms(1)
proof (induction k)
  case 0
  then show ?case by (auto intro!: nth_equalityI)
next
  case (Suc k)
  then have k: "k < N" by simp
  show ?case
    using k Suc.IH assms(2)
    by (simp add: accel_inner accel_from_all)
       (auto intro!: nth_equalityI simp: nth_list_update less_Suc_eq)
qed

lemma accel_loop_eq:
  assumes "length bs = N"
  shows "accel_loop sqrt_d G softening N
           \<lparr>bodies = bs, updated_bodies = us, ax = replicate N 0, ay = replicate N 0\<rparr>
         = \<lparr>bodies = bs, updated_bodies = us,
            ax = map (\<lambda>i. fst (accel_cy sqrt_d G softening bs i)) [0..<N],
            ay = map (\<lambda>i. snd (accel_cy sqrt_d G softening bs i)) [0..<N]\<rparr>"
  unfolding accel_loop_def
  by (subst accel_loop_prefix [OF le_refl assms]) simp

lemma update_body_step_eq:
  assumes "i < length (updated_bodies st)"
  shows "update_body_step dt i st
         = st\<lparr>updated_bodies :=
                (updated_bodies st)[i := euler_body dt (ax st ! i, ay st ! i) (updated_bodies st ! i)]\<rparr>"
  using assms by (simp add: update_body_step_def euler_body_def Let_def)

lemma update_loop_prefix:
  assumes "k \<le> N" "length us = N"
  shows "fold (\<lambda>i st. update_body_step dt i st) [0..<k]
           \<lparr>bodies = bs, updated_bodies = us, ax = axs, ay = ays\<rparr>
         = \<lparr>bodies = bs,
            updated_bodies = map (\<lambda>i. if i < k then euler_body dt (axs ! i, ays ! i) (us ! i) else us ! i) [0..<N],
            ax = axs, ay = ays\<rparr>"
  using assms(1)
proof (induction k)
  case 0
  then show ?case using assms(2) by (auto intro!: nth_equalityI)
next
  case (Suc k)
  then have k: "k < N" by simp
  show ?case
    using k Suc.IH assms(2)
    by (simp add: update_body_step_eq map_upt_update)
qed

lemma nbody_step_vars_eq:
  "nbody_step_vars sqrt_d bs dt G softening
   = \<lparr>bodies = bs,
      updated_bodies = map (\<lambda>i. euler_body dt (accel_cy sqrt_d G softening bs i) (bs ! i)) [0..<length bs],
      ax = map (\<lambda>i. fst (accel_cy sqrt_d G softening bs i)) [0..<length bs],
      ay = map (\<lambda>i. snd (accel_cy sqrt_d G softening bs i)) [0..<length bs]\<rparr>"
  unfolding nbody_step_vars_def Let_def update_loop_def
  by (simp add: accel_loop_eq update_loop_prefix [OF le_refl])

lemma nbody_step_update_eq:
  "nbody_step_update sqrt_d bs dt G softening
   = map (\<lambda>i. euler_body dt (accel_cy sqrt_d G softening bs i) (bs ! i)) [0..<length bs]"
  by (simp add: nbody_step_update_def nbody_step_vars_eq)

subsection \<open>The Cython kernel\<close>

lemma accel_arrays_step_cy_eq:
  "accel_arrays_step_cy sqrt_d G softening bs i (xs, ys)
   = (xs[i := fst (accel_cy sqrt_d G softening bs i)], ys[i := snd (accel_cy sqrt_d G softening bs i)])"
  by (simp add: accel_arrays_step_cy_def split_beta)

lemma accel_arrays_cy_prefix:
  assumes "k \<le> N" "length bs = N"
  shows "fold (accel_arrays_step_cy sqrt_d G softening bs) [0..<k] (replicate N 0, replicate N 0)
         = (map (\<lambda>i. if i < k then fst (accel_cy sqrt_d G softening bs i) else 0) [0..<N],
            map (\<lambda>i. if i < k then snd (accel_cy sqrt_d G softening bs i) else 0) [0..<N])"
  using assms(1)
proof (induction k)
  case 0
  then show ?case by (auto intro!: nth_equalityI)
next
  case (Suc k)
  then show ?case
    by (simp add: accel_arrays_step_cy_eq)
       (auto intro!: nth_equalityI simp: nth_list_update less_Suc_eq)
qed

lemma accel_arrays_cy_eq:
  "accel_arrays_cy sqrt_d G softening bs
   = (map (\<lambda>i. fst (accel_cy sqrt_d G softening bs i)) [0..<length bs],
      map (\<lambda>i. snd (accel_cy sqrt_d G softening bs i)) [0..<length bs])"
  by (simp add: accel_arrays_cy_def Let_def accel_arrays_cy_prefix [OF le_refl refl])

lemma update_array_step_cy_eq:
  "i < length a \<Longrightarrow>
   update_array_step_cy dt accel_x accel_y i a
   = a[i := euler_body dt (accel_x ! i, accel_y ! i) (a ! i)]"
  by (simp add: update_array_step_cy_def euler_body_def Let_def)

lemma update_array_cy_prefix:
  assumes "k \<le> length bs"
  shows "fold (update_array_step_cy dt accel_x accel_y) [0..<k] bs
     = map (\<lambda>i. if i < k then euler_body dt (accel_x ! i, accel_y ! i) (bs ! i) else bs ! i)
         [0..<length bs]"
  using assms
proof (induction k)
  case 0
  then show ?case by (auto intro!: nth_equalityI)
next
  case (Suc k)
  then show ?case
    by (simp add: update_array_step_cy_eq)
       (auto intro!: nth_equalityI simp: nth_list_update less_Suc_eq)
qed

lemma kernel_cy_eq:
  "kernel_cy sqrt_d bs dt G softening = nbody_step_update sqrt_d bs dt G softening"
  by (simp add: kernel_cy_def accel_arrays_cy_eq update_array_cy_def
        update_array_cy_prefix [OF le_refl] nbody_step_update_eq)

subsection \<open>The store of the Cython function\<close>

lemma write_back_step_eq:
  "write_back_step refs arr i h = h(refs ! i := written arr i (h (refs ! i)))"
  by (simp add: write_back_step_def written_def Let_def)

lemma written_idem: "written arr i (written arr i d) = written arr i d"
  by (simp add: written_def)

lemma written_m: "written arr i d ''m'' = d ''m''"
  by (simp add: written_def)

lemma fold_write_back_other:
  "r \<notin> (\<lambda>i. refs ! i) ` set js \<Longrightarrow> fold (write_back_step refs arr) js h r = h r"
  by (induction js arbitrary: h) (auto simp: write_back_step_eq)

lemma fold_write_back_m:
  "fold (write_back_step refs arr) js h r ''m'' = h r ''m''"
  by (induction js arbitrary: h) (auto simp: write_back_step_eq written_m)

lemma fold_write_back_at:
  assumes "distinct refs" "i < length refs" "\<forall>j\<in>set js. j < length refs" "i \<in> set js"
  shows "fold (write_back_step refs arr) js h (refs ! i) = written arr i (h (refs ! i))"
  using assms(3,4)
proof (induction js arbitrary: h)
  case Nil
  then show ?case by simp
next
  case (Cons j js)
  have neq: "k < length refs \<Longrightarrow> k \<noteq> i \<Longrightarrow> refs ! k \<noteq> refs ! i" for k
    using assms(1,2) by (simp add: nth_eq_iff_index_eq)
  have A: "write_back_step refs arr j h (refs ! i)
           = (if i = j then written arr i (h (refs ! i)) else h (refs ! i))"
    using neq [of j] Cons.prems by (auto simp: write_back_step_eq)
  show ?case
  proof (cases "i \<in> set js")
    case True
    then have "fold (write_back_step refs arr) js (write_back_step refs arr j h) (refs ! i)
               = written arr i (write_back_step refs arr j h (refs ! i))"
      using Cons.prems by (intro Cons.IH) auto
    then show ?thesis by (simp add: A written_idem)
  next
    case False
    then have ij: "i = j" using Cons.prems by simp
    have "refs ! i \<notin> (\<lambda>k. refs ! k) ` set js"
      using False Cons.prems(1) neq by force
    then have "fold (write_back_step refs arr) js (write_back_step refs arr j h) (refs ! i)
               = write_back_step refs arr j h (refs ! i)"
      by (rule fold_write_back_other)
    then show ?thesis using A ij by simp
  qed
qed

lemma copy_in_Inr:
  "copy_in h refs = Inr arr \<Longrightarrow>
   length arr = length refs \<and> (\<forall>i<length refs. read_body (h (refs ! i)) = Inr (arr ! i))"
proof (induction refs arbitrary: arr)
  case Nil
  then show ?case by simp
next
  case (Cons r refs)
  then show ?case
    by (auto split: sum.splits simp: nth_Cons split: nat.splits)
qed

lemma nbody_step_update_cy_eq:
  assumes "copy_in h refs = Inr body_array"
  shows "nbody_step_update_cy sqrt_d True h refs dt G softening
         = Inr (write_back refs (nbody_step_update sqrt_d body_array dt G softening) h, refs)"
  by (simp add: nbody_step_update_cy_def assms kernel_cy_eq)

lemma write_back_m: "write_back refs arr h r ''m'' = h r ''m''"
  by (simp add: write_back_def fold_write_back_m)

lemma write_back_other: "r \<notin> set refs \<Longrightarrow> write_back refs arr h r = h r"
  unfolding write_back_def
  by (rule fold_write_back_other) (auto simp: set_conv_nth)

lemma write_back_at:
  assumes "distinct refs" "i < length refs"
  shows "write_back refs arr h (refs ! i) = written arr i (h (refs ! i))"
  unfolding write_back_def
  using assms by (intro fold_write_back_at) auto

subsection \<open>What the write-back leaves in a dictionary\<close>

lemma read_body_holds: "read_body d = Inr b \<Longrightarrow> dict_holds d b"
  by (auto simp: read_body_def dict_holds_def split: option.splits)

lemma fold_last_hit_acc:
  "fold (last_hit refs r) js acc
   = (case fold (last_hit refs r) js None of None \<Rightarrow> acc | Some L \<Rightarrow> Some L)"
proof (induction js arbitrary: acc)
  case Nil
  then show ?case by simp
next
  case (Cons j js)
  show ?case
    by (simp add: Cons.IH [of "last_hit refs r j acc"] Cons.IH [of "last_hit refs r j None"])
       (simp add: last_hit_def split: option.splits)
qed

lemma written_over: "written arr L (written arr j d) = written arr L d"
  by (simp add: written_def)

lemma fold_write_back_last:
  "fold (write_back_step refs arr) js h r
   = (case fold (last_hit refs r) js None of None \<Rightarrow> h r | Some L \<Rightarrow> written arr L (h r))"
proof (induction js arbitrary: h)
  case Nil
  then show ?case by simp
next
  case (Cons j js)
  have step: "write_back_step refs arr j h r
              = (if refs ! j = r then written arr j (h r) else h r)"
    by (auto simp: write_back_step_eq)
  have "fold (write_back_step refs arr) (j # js) h r
        = (case fold (last_hit refs r) js None of
             None \<Rightarrow> write_back_step refs arr j h r
           | Some L \<Rightarrow> written arr L (write_back_step refs arr j h r))"
    by (simp add: Cons.IH)
  also have "\<dots> = (case fold (last_hit refs r) (j # js) None of
                      None \<Rightarrow> h r | Some L \<Rightarrow> written arr L (h r))"
    by (simp add: fold_last_hit_acc [of refs r js "last_hit refs r j None"] step)
       (simp add: last_hit_def written_over step split: option.splits)
  finally show ?case .
qed

lemma fold_last_hit_upt:
  "(case fold (last_hit refs r) [0..<n] None of
      None \<Rightarrow> \<forall>j<n. refs ! j \<noteq> r
    | Some L \<Rightarrow> L < n \<and> refs ! L = r \<and> (\<forall>j<n. refs ! j = r \<longrightarrow> j \<le> L))"
proof (induction n)
  case 0
  then show ?case by simp
next
  case (Suc n)
  then show ?case
    by (auto simp: last_hit_def less_Suc_eq split: option.splits)
qed

lemma last_index_nth:
  assumes "i < length refs"
  shows "\<exists>L. last_index refs (refs ! i) = Some L \<and> i \<le> L \<and> L < length refs \<and>
             refs ! L = refs ! i \<and> (distinct refs \<longrightarrow> L = i)"
proof -
  note T = fold_last_hit_upt [where refs = refs and r = "refs ! i" and n = "length refs"]
  show ?thesis
  proof (cases "last_index refs (refs ! i)")
    case None
    then show ?thesis using T assms by (auto simp: last_index_def)
  next
    case (Some L)
    then have L: "L < length refs" "refs ! L = refs ! i" "i \<le> L"
      using T assms by (auto simp: last_index_def)
    then have "distinct refs \<longrightarrow> L = i"
      using assms by (auto simp: nth_eq_iff_index_eq)
    then show ?thesis using Some L by simp
  qed
qed

lemma write_back_last:
  "write_back refs arr h r
   = (case last_index refs r of None \<Rightarrow> h r | Some L \<Rightarrow> written arr L (h r))"
  by (simp add: write_back_def last_index_def fold_write_back_last)

lemma written_holds:
  "d ''m'' = Some (body_m (arr ! L)) \<Longrightarrow> dict_holds (written arr L d) (arr ! L)"
  by (simp add: dict_holds_def written_def)


subsection \<open>The claims on the N-body step\<close>

lemma example_copy_in: "copy_in example_store [0] = Inr [\<lparr>body_x = 0, body_y = 0, body_vx = 1, body_vy = 0, body_m = 1\<rparr>]"
  by (simp add: example_store_def read_body_def)

lemma single_body_accel_cy: "accel_cy sqrt_d G softening [b] 0 = (0, 0)"
  by (simp add: accel_cy_def accel_step_cy_def)

text \<open>
  Claim C3, as stated, fails for the Cython function. One body at \<open>x = 0\<close> with \<open>vx = 1\<close>,
  and \<open>dt = 1\<close>: before the call the dictionary of the caller holds \<open>x = 0\<close>, after the
  call it holds \<open>x = 1\<close>.
\<close>

theorem nbody_step_update_cy_mutates_input:
  "example_store 0 ''x'' = Some 0 \<and>
   stored_field (nbody_step_update_cy sqrt True example_store [0] 1 1 1) 0 ''x'' = Some 1"
proof -
  have wb: "write_back [0] arr h 0 = written arr 0 (h 0)" for arr :: "real Body list" and h
    using write_back_at [of "[0]" 0 arr h] by simp
  have "stored_field (nbody_step_update_cy sqrt True example_store [0] 1 1 1) 0 ''x''
        = written (nbody_step_update sqrt
            [\<lparr>body_x = 0, body_y = 0, body_vx = 1, body_vy = 0, body_m = 1\<rparr>] 1 1 1) 0
            (example_store 0) ''x''"
    by (simp add: stored_field_def nbody_step_update_cy_eq [OF example_copy_in] wb)
  also have "\<dots> = Some 1"
    by (simp add: written_def nbody_step_update_eq single_body_accel_cy euler_body_def)
  finally show ?thesis by (simp add: example_store_def)
qed

text \<open>
  Claim C3, amended. The C++ \<^verbatim>\<open>nbody_step_update\<close> returns with its parameter
  \<^verbatim>\<open>bodies\<close> as it was. The Cython \<^verbatim>\<open>nbody_step_update_cy\<close>, when the allocations
  succeed and every dictionary has the five keys (\<open>body_array\<close> is what the dictionaries
  held), returns the list it was given and has written into the dictionaries of the
  caller: the key \<open>m\<close> of every dictionary and every dictionary outside the list are as
  before, and, when the list holds no dictionary twice, the keys \<open>x\<close>, \<open>y\<close>, \<open>vx\<close>, \<open>vy\<close> of
  the \<open>i\<close>-th dictionary hold the fields of the \<open>i\<close>-th updated body.
\<close>

theorem nbody_step_input_frame:
  fixes bs :: "'a::{zero,one,plus,minus,times,inverse} Body list"
  assumes "copy_in h refs = Inr body_array"
  shows "bodies (nbody_step_vars sqrt_d bs dt G softening) = bs \<and>
         length body_array = length refs \<and>
         (\<forall>i<length refs. read_body (h (refs ! i)) = Inr (body_array ! i)) \<and>
         (\<exists>h'. nbody_step_update_cy sqrt_d True h refs dt G softening = Inr (h', refs) \<and>
            (\<forall>r. h' r ''m'' = h r ''m'') \<and>
            (\<forall>r. r \<notin> set refs \<longrightarrow> h' r = h r) \<and>
            (distinct refs \<longrightarrow>
               (\<forall>i<length refs.
                  h' (refs ! i) ''x'' = Some (body_x (nbody_step_update sqrt_d body_array dt G softening ! i)) \<and>
                  h' (refs ! i) ''y'' = Some (body_y (nbody_step_update sqrt_d body_array dt G softening ! i)) \<and>
                  h' (refs ! i) ''vx'' = Some (body_vx (nbody_step_update sqrt_d body_array dt G softening ! i)) \<and>
                  h' (refs ! i) ''vy'' = Some (body_vy (nbody_step_update sqrt_d body_array dt G softening ! i)))))"
  using copy_in_Inr [OF assms]
  by (simp add: nbody_step_vars_eq nbody_step_update_cy_eq [OF assms] write_back_m
        write_back_other write_back_at written_def)

theorem nbody_step_input_frame_witness:
  "copy_in example_store [0] = Inr [\<lparr>body_x = 0, body_y = 0, body_vx = 1, body_vy = 0, body_m = 1\<rparr>] \<and>
   bodies (nbody_step_vars sqrt [\<lparr>body_x = 0, body_y = 0, body_vx = 1, body_vy = 0, body_m = 1\<rparr>] 1 1 1)
     = [\<lparr>body_x = 0, body_y = 0, body_vx = 1, body_vy = 0, body_m = (1::real)\<rparr>] \<and>
   (\<exists>h'. nbody_step_update_cy sqrt True example_store [0] 1 1 1 = Inr (h', [0]) \<and>
      h' 0 ''m'' = example_store 0 ''m'')"
proof -
  from nbody_step_input_frame [OF example_copy_in, of sqrt
      "[\<lparr>body_x = 0, body_y = 0, body_vx = 1, body_vy = 0, body_m = 1\<rparr>]" 1 1 1]
  obtain h' where
    "bodies (nbody_step_vars sqrt [\<lparr>body_x = 0, body_y = 0, body_vx = 1, body_vy = 0, body_m = 1\<rparr>] 1 1 1)
     = [\<lparr>body_x = 0, body_y = 0, body_vx = 1, body_vy = 0, body_m = (1::real)\<rparr>]"
    "nbody_step_update_cy sqrt True example_store [0] 1 1 1 = Inr (h', [0])"
    "\<forall>r. h' r ''m'' = example_store r ''m''"
    by blast
  then show ?thesis using example_copy_in by blast
qed

section \<open>Double precision: proofs\<close>

subsection \<open>Powers of two and underflow\<close>

lemma round_half_even_of_int: "round_half_even (of_int n) = n"
  by (simp add: round_half_even_def)

lemma round64_powr:
  assumes "- 1022 \<le> e"
  shows "round64 (2 powr of_int e) = 2 powr of_int e"
proof -
  have q: "quantum (2 powr of_int e) = 2 powr of_int (e - 52)"
    using assms by (simp add: quantum_def max_def)
  have "2 powr of_int e / 2 powr of_int (e - 52) = (2::real) powr 52"
    by (simp add: powr_diff [symmetric])
  also have "\<dots> = of_int (2 ^ 52)"
    by (simp add: powr_numeral)
  finally have "round_half_even (2 powr of_int e / quantum (2 powr of_int e)) = 2 ^ 52"
    unfolding q by (simp only: round_half_even_of_int)
  then have "round64 (2 powr of_int e) = of_int (2 ^ 52) * 2 powr of_int (e - 52)"
    by (simp add: round64_def q)
  also have "\<dots> = 2 powr 52 * 2 powr of_int (e - 52)"
    by (simp add: powr_numeral)
  also have "\<dots> = 2 powr (52 + of_int (e - 52))"
    by (rule powr_add [symmetric])
  also have "\<dots> = 2 powr of_int e"
    by simp
  finally show ?thesis .
qed

lemma round64_underflow:
  assumes "0 < x" "x < 2 powr (- 1075)"
  shows "round64 x = 0"
proof -
  have "log 2 x < log 2 (2 powr (- 1075))"
    using assms by (simp del: log_powr_cancel)
  then have "log 2 x < - 1075" by simp
  then have "\<lfloor>log 2 \<bar>x\<bar>\<rfloor> < - 1022" using assms(1) by (simp add: floor_less_iff)
  then have q: "quantum x = 2 powr (- 1074)"
    by (simp add: quantum_def max_def)
  have "x / 2 powr (- 1074) < 2 powr (- 1075) / 2 powr (- 1074)"
    using assms(2) by (simp add: divide_strict_right_mono)
  also have "\<dots> = 2 powr (- 1)" by (simp add: powr_diff [symmetric])
  also have "\<dots> = 1 / 2" by (simp add: powr_minus)
  finally have lt: "x / quantum x < 1 / 2" by (simp add: q)
  have ge: "0 \<le> x / quantum x" using assms(1) by (simp add: q)
  moreover have "x / quantum x < 1" using lt by linarith
  ultimately have "\<lfloor>x / quantum x\<rfloor> = 0" by (simp add: floor_eq_iff)
  then have "round_half_even (x / quantum x) = 0"
    using lt by (simp add: round_half_even_def)
  then show ?thesis by (simp add: round64_def)
qed

lemma max_double_ge_one: "1 \<le> max_double"
proof -
  have "(2::real) powr (- 52) \<le> 2 powr 0" by (intro powr_mono) simp_all
  then have a: "(1::real) \<le> 2 - 2 powr (- 52)" by simp
  have "(2::real) powr 0 \<le> 2 powr 1023" by (intro powr_mono) simp_all
  then have b: "(1::real) \<le> 2 powr 1023" by simp
  from a b have "(1::real) * 1 \<le> (2 - 2 powr (- 52)) * 2 powr 1023"
    by (intro mult_mono) simp_all
  then show ?thesis by (simp add: max_double_def)
qed

lemma to_double_small:
  assumes "\<bar>round64 x\<bar> \<le> 1"
  shows "to_double x = Finite (round64 x)"
proof -
  have "\<not> max_double < round64 x" "\<not> round64 x < - max_double"
    using assms max_double_ge_one by linarith+
  then show ?thesis by (simp add: to_double_def)
qed

lemma to_double_powr:
  assumes "- 1022 \<le> e" "e \<le> 0"
  shows "to_double (2 powr of_int e) = Finite (2 powr of_int e)"
proof -
  have "(2::real) powr of_int e \<le> 2 powr 0" using assms(2) by (intro powr_mono) simp_all
  then have "\<bar>round64 (2 powr of_int e)\<bar> \<le> 1"
    by (simp add: round64_powr [OF assms(1)])
  then show ?thesis
    by (simp add: to_double_small round64_powr [OF assms(1)])
qed

lemma to_double_zero: "to_double 0 = Finite 0"
  by (simp add: to_double_small round64_def)

lemma to_double_underflow:
  assumes "0 < x" "x < 2 powr (- 1075)"
  shows "to_double x = Finite 0"
  by (simp add: to_double_small round64_underflow [OF assms])

lemma dist_soft_tiny:
  "dist_soft double_sqrt (Finite tiny_softening) coincident_body coincident_body = Finite (2 powr (- 500))"
proof -
  have s: "sqrt (2 powr (- 1000)) = 2 powr (- 500)"
    by (simp add: powr_half_sqrt [symmetric] powr_powr)
  have a: "to_double (2 powr (- 1000)) = Finite (2 powr (- 1000))"
    using to_double_powr [of "- 1000"] by simp
  have b: "to_double (2 powr (- 500)) = Finite (2 powr (- 500))"
    using to_double_powr [of "- 500"] by simp
  have f: "body_x coincident_body = Finite 0" "body_y coincident_body = Finite 0"
    by (simp_all add: coincident_body_def)
  show ?thesis
    by (simp add: dist_soft_def f tiny_softening_def minus_double_def
          plus_double_def times_double_def to_double_zero a b s)
qed

subsection \<open>Rounding to the nearest integer\<close>

lemma round_half_even_cases:
  "round_half_even r = \<lfloor>r\<rfloor> \<or> round_half_even r = \<lfloor>r\<rfloor> + 1"
  by (simp add: round_half_even_def Let_def)

lemma round_half_even_near: "\<bar>of_int (round_half_even r) - r\<bar> \<le> 1 / 2"
proof -
  have "of_int \<lfloor>r\<rfloor> \<le> r" "r < of_int \<lfloor>r\<rfloor> + 1" by linarith+
  then show ?thesis
    by (auto simp: round_half_even_def Let_def)
qed

lemma round_half_even_tie:
  assumes "\<bar>of_int (round_half_even r) - r\<bar> = 1 / 2"
  shows "even (round_half_even r)"
proof -
  have "of_int \<lfloor>r\<rfloor> \<le> r" "r < of_int \<lfloor>r\<rfloor> + 1" by linarith+
  then show ?thesis
    using assms by (auto simp: round_half_even_def Let_def split: if_splits)
qed

lemma round_half_even_unique:
  assumes "\<bar>of_int n - r\<bar> < 1 / 2 \<or> (\<bar>of_int n - r\<bar> = 1 / 2 \<and> even n)"
  shows "round_half_even r = n"
proof -
  have f: "of_int \<lfloor>r\<rfloor> \<le> r" "r < of_int \<lfloor>r\<rfloor> + 1" by linarith+
  from assms have "\<bar>of_int n - r\<bar> \<le> 1 / 2" by linarith
  with f have "of_int \<lfloor>r\<rfloor> - 1 < (of_int n :: real)" "(of_int n :: real) < of_int \<lfloor>r\<rfloor> + 2"
    by linarith+
  then have "\<lfloor>r\<rfloor> - 1 < n" "n < \<lfloor>r\<rfloor> + 2"
    by linarith+
  then consider "n = \<lfloor>r\<rfloor>" | "n = \<lfloor>r\<rfloor> + 1" by linarith
  then show ?thesis
  proof cases
    case 1
    then show ?thesis using assms f
      by (auto simp: round_half_even_def Let_def)
  next
    case 2
    then show ?thesis using assms f
      by (auto simp: round_half_even_def Let_def)
  qed
qed

lemma round_half_even_mono:
  assumes "r \<le> s"
  shows "round_half_even r \<le> round_half_even s"
proof (cases "r = s")
  case True
  then show ?thesis by simp
next
  case False
  then have "r < s" using assms by simp
  moreover note round_half_even_near [of r] round_half_even_near [of s]
  ultimately have "(of_int (round_half_even r) :: real) < of_int (round_half_even s) + 1"
    by linarith
  then have "round_half_even r < round_half_even s + 1" by linarith
  then show ?thesis by simp
qed

lemma round_half_even_minus: "round_half_even (- r) = - round_half_even r"
proof (rule round_half_even_unique)
  have eq: "\<bar>of_int (- round_half_even r) - (- r)\<bar> = \<bar>of_int (round_half_even r) - r\<bar>"
    by simp
  show "\<bar>of_int (- round_half_even r) - - r\<bar> < 1 / 2 \<or>
        \<bar>of_int (- round_half_even r) - - r\<bar> = 1 / 2 \<and> even (- round_half_even r)"
    unfolding eq using round_half_even_near [of r] round_half_even_tie [of r]
    by (cases "\<bar>of_int (round_half_even r) - r\<bar> = 1 / 2") auto
qed

lemma round_half_even_ge:
  assumes "of_int n \<le> r"
  shows "n \<le> round_half_even r"
  using round_half_even_mono [OF assms] by (simp add: round_half_even_of_int)

lemma round_half_even_le:
  assumes "r \<le> of_int n"
  shows "round_half_even r \<le> n"
  using round_half_even_mono [OF assms] by (simp add: round_half_even_of_int)

subsection \<open>Binades\<close>

lemma quantum_binade: "quantum x = 2 powr of_int (binade x - 52)"
  by (simp add: quantum_def binade_def)

lemma quantum_pos: "0 < quantum x"
  by (simp add: quantum_def)

lemma floor_log2_le:
  assumes "0 < x"
  shows "2 powr of_int \<lfloor>log 2 x\<rfloor> \<le> x"
proof -
  have *: "y \<le> log 2 x \<longleftrightarrow> 2 powr y \<le> x" for y
    using assms by (intro le_log_iff) simp_all
  show ?thesis by (rule * [THEN iffD1]) simp
qed

lemma floor_log2_less:
  assumes "0 < x"
  shows "x < 2 powr of_int (\<lfloor>log 2 x\<rfloor> + 1)"
proof -
  have "log 2 x < of_int (\<lfloor>log 2 x\<rfloor> + 1)" by linarith
  then show ?thesis using assms by (simp only: log_less_iff [of 2 x] one_less_numeral_iff semiring_norm)
qed

lemma floor_log2_ge:
  assumes "0 < x" "2 powr of_int j \<le> x"
  shows "j \<le> \<lfloor>log 2 x\<rfloor>"
proof -
  have "of_int j \<le> log 2 x" using assms by (simp add: le_log_iff)
  then show ?thesis by (simp add: le_floor_iff)
qed

lemma floor_log2_lt:
  assumes "0 < x" "x < 2 powr of_int j"
  shows "\<lfloor>log 2 x\<rfloor> < j"
proof -
  have "log 2 x < of_int j" using assms by (simp add: log_less_iff)
  then show ?thesis by (simp add: floor_less_iff)
qed

lemma floor_log2_eq:
  assumes "0 < x" "2 powr of_int j \<le> x" "x < 2 powr of_int (j + 1)"
  shows "\<lfloor>log 2 x\<rfloor> = j"
  using floor_log2_ge [OF assms(1,2)] floor_log2_lt [OF assms(1,3)] by simp

lemma floor_log2_mono:
  assumes "0 < x" "x \<le> y"
  shows "\<lfloor>log 2 x\<rfloor> \<le> \<lfloor>log 2 y\<rfloor>"
proof -
  have "log 2 x \<le> log 2 y" using assms by simp
  then show ?thesis by (rule floor_mono)
qed

lemma binade_mono:
  assumes "0 < x" "x \<le> y"
  shows "binade x \<le> binade y"
proof -
  have "max \<lfloor>log 2 x\<rfloor> (- 1022) \<le> max \<lfloor>log 2 y\<rfloor> (- 1022)"
    using floor_log2_mono [OF assms] by (rule max.mono) simp
  moreover have "\<bar>x\<bar> = x" "\<bar>y\<bar> = y" using assms by simp_all
  ultimately show ?thesis by (simp only: binade_def)
qed

lemma binade_minus: "binade (- x) = binade x"
  by (simp add: binade_def)

lemma binade_ge: "- 1022 \<le> binade x"
  by (simp add: binade_def)

lemma binade_upper:
  assumes "0 < x"
  shows "x < 2 powr of_int (binade x + 1)"
proof -
  have "\<lfloor>log 2 x\<rfloor> + 1 \<le> binade x + 1" using assms by (simp add: binade_def)
  then have "(2::real) powr of_int (\<lfloor>log 2 x\<rfloor> + 1) \<le> 2 powr of_int (binade x + 1)"
    by (intro powr_mono) simp_all
  with floor_log2_less [OF assms] show ?thesis by linarith
qed

lemma binade_lower:
  assumes "0 < x" "- 1022 \<le> \<lfloor>log 2 x\<rfloor>"
  shows "2 powr of_int (binade x) \<le> x"
proof -
  have "binade x = \<lfloor>log 2 x\<rfloor>" using assms by (simp add: binade_def)
  then show ?thesis using floor_log2_le [OF assms(1)] by simp
qed

lemma binade_eq:
  assumes "0 < x" "- 1022 \<le> j" "x < 2 powr of_int (j + 1)" "j = - 1022 \<or> 2 powr of_int j \<le> x"
  shows "binade x = j"
proof (cases "2 powr of_int j \<le> x")
  case True
  then have "\<lfloor>log 2 x\<rfloor> = j" using assms by (intro floor_log2_eq) simp_all
  then show ?thesis using assms(1,2) by (simp add: binade_def)
next
  case False
  then have j: "j = - 1022" using assms(4) by simp
  have "\<lfloor>log 2 x\<rfloor> < j + 1" using assms(1,3) by (rule floor_log2_lt)
  then show ?thesis using assms(1) j by (simp add: binade_def)
qed

lemma powr_int_shift: "(2::real) powr of_int (a + b) = 2 powr of_int a * 2 powr of_int b"
  by (simp add: powr_add)

lemma two_powr_nat: "(2::real) powr of_int (int k) = of_int (2 ^ k)"
  by (simp add: powr_realpow)

subsection \<open>Rounding is odd, monotone and idempotent\<close>

lemma powr_ratio: "(2::real) powr of_int a / 2 powr of_int b = 2 powr of_int (a - b)"
  by (simp add: powr_diff)

lemma quantum_minus: "quantum (- x) = quantum x"
  by (simp add: quantum_def)

lemma round64_minus: "round64 (- x) = - round64 x"
  by (simp add: round64_def quantum_minus round_half_even_minus)

lemma round64_zero: "round64 0 = 0"
  by (simp add: round64_def)

lemma round64_nonneg:
  assumes "0 \<le> x"
  shows "0 \<le> round64 x"
proof (cases "x = 0")
  case True
  then show ?thesis by (simp add: round64_def)
next
  case False
  have "of_int 0 \<le> x / quantum x" using assms quantum_pos [of x] by simp
  then have "0 \<le> round_half_even (x / quantum x)" by (rule round_half_even_ge)
  then show ?thesis using False quantum_pos [of x] by (simp add: round64_def)
qed

lemma round64_upper:
  assumes "0 < x"
  shows "round64 x \<le> 2 powr of_int (binade x + 1)"
proof -
  have "x / quantum x \<le> 2 powr of_int (binade x + 1) / quantum x"
    using binade_upper [OF assms] quantum_pos [of x] by (simp add: divide_right_mono)
  also have "\<dots> = 2 powr of_int (int 53)"
    by (simp only: quantum_binade powr_ratio) simp
  also have "\<dots> = of_int (2 ^ 53)" by (rule two_powr_nat)
  finally have "round_half_even (x / quantum x) \<le> 2 ^ 53" by (rule round_half_even_le)
  then have "(of_int (round_half_even (x / quantum x)) :: real) \<le> of_int (2 ^ 53)"
    by (simp only: of_int_le_iff)
  then have "of_int (round_half_even (x / quantum x)) * quantum x \<le> of_int (2 ^ 53) * quantum x"
    using quantum_pos [of x] by (intro mult_right_mono) simp_all
  also have "of_int (2 ^ 53) * quantum x = 2 powr of_int (int 53) * 2 powr of_int (binade x - 52)"
    by (simp only: two_powr_nat quantum_binade)
  also have "\<dots> = 2 powr of_int (int 53 + (binade x - 52))"
    by (rule powr_int_shift [symmetric])
  also have "int 53 + (binade x - 52) = binade x + 1" by simp
  finally show ?thesis using assms by (simp add: round64_def)
qed

lemma round64_lower_binade:
  assumes "0 < x" "- 1022 \<le> \<lfloor>log 2 x\<rfloor>"
  shows "2 powr of_int (binade x) \<le> round64 x"
proof -
  have "2 powr of_int (binade x) / quantum x \<le> x / quantum x"
    using binade_lower [OF assms] quantum_pos [of x] by (simp add: divide_right_mono)
  moreover have "2 powr of_int (binade x) / quantum x = 2 powr of_int (int 52)"
    by (simp only: quantum_binade powr_ratio) simp
  moreover have "(2::real) powr of_int (int 52) = of_int (2 ^ 52)" by (rule two_powr_nat)
  ultimately have "of_int (2 ^ 52) \<le> x / quantum x" by simp
  then have "2 ^ 52 \<le> round_half_even (x / quantum x)" by (rule round_half_even_ge)
  then have "(of_int (2 ^ 52) :: real) \<le> of_int (round_half_even (x / quantum x))"
    by (simp only: of_int_le_iff)
  then have "of_int (2 ^ 52) * quantum x \<le> of_int (round_half_even (x / quantum x)) * quantum x"
    using quantum_pos [of x] by (intro mult_right_mono) simp_all
  moreover have "of_int (2 ^ 52) * quantum x = 2 powr of_int (int 52) * 2 powr of_int (binade x - 52)"
    by (simp only: two_powr_nat quantum_binade)
  moreover have "\<dots> = 2 powr of_int (int 52 + (binade x - 52))"
    by (rule powr_int_shift [symmetric])
  moreover have "int 52 + (binade x - 52) = binade x" by simp
  ultimately show ?thesis using assms by (simp add: round64_def)
qed

lemma round64_mono_pos:
  assumes "0 < x" "x \<le> y"
  shows "round64 x \<le> round64 y"
proof (cases "binade x = binade y")
  case True
  then have q: "quantum x = quantum y" by (simp add: quantum_binade)
  have "x / quantum y \<le> y / quantum y"
    using assms quantum_pos [of y] by (simp add: divide_right_mono)
  then have "round_half_even (x / quantum y) \<le> round_half_even (y / quantum y)"
    by (rule round_half_even_mono)
  then have "(of_int (round_half_even (x / quantum y)) :: real) \<le> of_int (round_half_even (y / quantum y))"
    by (simp only: of_int_le_iff)
  then have "of_int (round_half_even (x / quantum y)) * quantum y
             \<le> of_int (round_half_even (y / quantum y)) * quantum y"
    using quantum_pos [of y] by (intro mult_right_mono) simp_all
  then show ?thesis using assms by (simp add: round64_def q)
next
  case False
  have y: "0 < y" using assms by simp
  have lt: "binade x < binade y" using binade_mono [OF assms] False by simp
  then have "- 1022 < binade y" using binade_ge [of x] by simp
  then have fl: "- 1022 \<le> \<lfloor>log 2 y\<rfloor>" using y by (simp add: binade_def max_def split: if_splits)
  have "round64 x \<le> 2 powr of_int (binade x + 1)" using assms(1) by (rule round64_upper)
  also have "\<dots> \<le> 2 powr of_int (binade y)" using lt by (intro powr_mono) simp_all
  also have "\<dots> \<le> round64 y" using y fl by (rule round64_lower_binade)
  finally show ?thesis .
qed

lemma round64_mono:
  assumes "x \<le> y"
  shows "round64 x \<le> round64 y"
proof -
  consider "0 < x" | "x \<le> 0" "0 \<le> y" | "y < 0" using assms by linarith
  then show ?thesis
  proof cases
    case 1
    then show ?thesis using assms by (rule round64_mono_pos)
  next
    case 2
    have "0 \<le> round64 (- x)" using 2(1) by (intro round64_nonneg) simp
    then have "round64 x \<le> 0" by (simp add: round64_minus)
    also have "0 \<le> round64 y" using 2(2) by (rule round64_nonneg)
    finally show ?thesis .
  next
    case 3
    have "round64 (- y) \<le> round64 (- x)" using 3 assms by (intro round64_mono_pos) simp_all
    then show ?thesis by (simp add: round64_minus)
  qed
qed

lemma round64_int_quantum:
  assumes "0 < x" "x = of_int n * quantum x"
  shows "round64 x = x"
proof -
  have "x / quantum x = of_int n"
    using assms(2) quantum_pos [of x] by (simp add: field_simps)
  then have "round_half_even (x / quantum x) = n" by (simp only: round_half_even_of_int)
  then show ?thesis using assms by (simp add: round64_def)
qed

lemma round64_idem_pos:
  assumes "0 < x"
  shows "round64 (round64 x) = round64 x"
proof -
  define n where "n = round_half_even (x / quantum x)"
  define r where "r = round64 x"
  have r: "r = of_int n * quantum x" using assms by (simp add: r_def n_def round64_def)
  have r0: "0 \<le> r" unfolding r_def using assms by (intro round64_nonneg) simp
  have up: "r \<le> 2 powr of_int (binade x + 1)" unfolding r_def using assms by (rule round64_upper)
  show ?thesis
  proof (cases "r = 0")
    case True
    then show ?thesis using r_def by (simp add: round64_zero)
  next
    case False
    then have rpos: "0 < r" using r0 by simp
    show ?thesis
    proof (cases "r = 2 powr of_int (binade x + 1)")
      case True
      have "- 1022 \<le> binade x + 1" using binade_ge [of x] by simp
      then have "round64 (2 powr of_int (binade x + 1)) = 2 powr of_int (binade x + 1)"
        by (rule round64_powr)
      then show ?thesis using True r_def by simp
    next
      case False
      then have lt: "r < 2 powr of_int (binade x + 1)" using up by simp
      have "binade x = - 1022 \<or> 2 powr of_int (binade x) \<le> r"
      proof (cases "- 1022 \<le> \<lfloor>log 2 x\<rfloor>")
        case True
        then show ?thesis using round64_lower_binade [OF assms True] r_def by simp
      next
        case False
        then show ?thesis using assms by (simp add: binade_def max_def)
      qed
      then have "binade r = binade x"
        using rpos binade_ge [of x] lt by (intro binade_eq) simp_all
      then have "quantum r = quantum x" by (simp add: quantum_binade)
      then have "r = of_int n * quantum r" using r by simp
      then have "round64 r = r" using rpos by (intro round64_int_quantum)
      then show ?thesis using r_def by simp
    qed
  qed
qed

lemma round64_idem: "round64 (round64 x) = round64 x"
proof -
  consider "0 < x" | "x = 0" | "x < 0" by linarith
  then show ?thesis
  proof cases
    case 1
    then show ?thesis by (rule round64_idem_pos)
  next
    case 2
    then show ?thesis by (simp add: round64_zero)
  next
    case 3
    then have "round64 (round64 (- x)) = round64 (- x)" by (intro round64_idem_pos) simp
    then show ?thesis by (simp add: round64_minus)
  qed
qed

lemma round64_le:
  assumes "x \<le> b" "round64 b = b"
  shows "round64 x \<le> b"
  using round64_mono [OF assms(1)] assms(2) by simp

lemma round64_ge:
  assumes "a \<le> x" "round64 a = a"
  shows "a \<le> round64 x"
  using round64_mono [OF assms(1)] assms(2) by simp

subsection \<open>Lower bounds through the operations\<close>

lemma nan_or_ge_simps [simp]:
  "nan_or_ge t (Finite a) \<longleftrightarrow> t \<le> a"
  "nan_or_ge t PlusInf"
  "\<not> nan_or_ge t MinusInf"
  "nan_or_ge t NaN"
  by (simp_all add: nan_or_ge_def)

lemma round64_powr_subnormal:
  assumes "- 1074 \<le> e" "e < - 1022"
  shows "round64 (2 powr of_int e) = 2 powr of_int e"
proof (rule round64_int_quantum)
  show "0 < (2::real) powr of_int e" by simp
  have "binade (2 powr of_int e) = - 1022"
    using assms by (simp add: binade_def max_def)
  then have q: "quantum (2 powr of_int e) = 2 powr of_int (- 1074)"
    by (simp add: quantum_binade)
  have "(2::real) powr of_int e = 2 powr of_int (int (nat (e + 1074)) + (- 1074))"
    using assms by simp
  also have "\<dots> = 2 powr of_int (int (nat (e + 1074))) * 2 powr of_int (- 1074)"
    by (rule powr_int_shift)
  also have "\<dots> = of_int (2 ^ nat (e + 1074)) * 2 powr of_int (- 1074)"
    by (simp only: two_powr_nat)
  finally have e: "(2::real) powr of_int e = of_int (2 ^ nat (e + 1074)) * 2 powr of_int (- 1074)" .
  show "2 powr of_int e = of_int (2 ^ nat (e + 1074)) * quantum (2 powr of_int e)"
    unfolding q by (rule e)
qed

lemma round64_two_powr:
  assumes "- 1074 \<le> e"
  shows "round64 (2 powr of_int e) = 2 powr of_int e"
  using assms round64_powr [of e] round64_powr_subnormal [of e] by (cases "- 1022 \<le> e") simp_all

lemma max_double_pos: "0 < max_double"
  using max_double_ge_one by linarith

lemma to_double_nonneg:
  assumes "0 \<le> x"
  shows "nan_or_ge 0 (to_double x)"
proof -
  have "0 \<le> round64 x" using assms by (rule round64_nonneg)
  then show ?thesis using max_double_pos by (simp add: to_double_def Let_def)
qed

lemma to_double_ge_powr:
  assumes "- 1074 \<le> k" "2 powr of_int k \<le> x"
  shows "nan_or_ge (2 powr of_int k) (to_double x)"
proof -
  have "2 powr of_int k \<le> round64 x"
    using assms(2) round64_two_powr [OF assms(1)] by (rule round64_ge)
  moreover have "0 < (2::real) powr of_int k" by simp
  moreover have "\<not> round64 x < - max_double"
    using calculation max_double_pos by linarith
  ultimately show ?thesis by (simp add: to_double_def Let_def)
qed

lemma square_nan_or_ge: "nan_or_ge 0 (z * z)" for z :: double
  by (cases z) (simp_all add: times_double_def to_double_nonneg signed_inf_def)

lemma add_nan_or_ge_0:
  assumes "nan_or_ge 0 a" "nan_or_ge 0 b"
  shows "nan_or_ge 0 (a + b)"
  using assms by (cases a; cases b) (simp_all add: plus_double_def to_double_nonneg)

lemma add_nan_or_ge:
  assumes "nan_or_ge 0 a" "nan_or_ge (2 powr of_int k) b" "- 1074 \<le> k"
  shows "nan_or_ge (2 powr of_int k) (a + b)"
  using assms by (cases a; cases b) (simp_all add: plus_double_def to_double_ge_powr)

lemma sqrt_two_powr: "sqrt (2 powr of_int (2 * k)) = 2 powr of_int k"
proof -
  have "sqrt (2 powr of_int (2 * k)) = (2 powr of_int (2 * k)) powr (1 / 2)"
    by (simp add: powr_half_sqrt)
  also have "\<dots> = 2 powr of_int k" by (simp add: powr_powr)
  finally show ?thesis .
qed

lemma sqrt_nan_or_ge:
  assumes "nan_or_ge (2 powr of_int (2 * k)) a" "- 1074 \<le> k"
  shows "nan_or_ge (2 powr of_int k) (double_sqrt a)"
proof (cases a)
  case (Finite x)
  then have x: "2 powr of_int (2 * k) \<le> x" using assms(1) by simp
  then have "sqrt (2 powr of_int (2 * k)) \<le> sqrt x" by simp
  then have "2 powr of_int k \<le> sqrt x" by (simp only: sqrt_two_powr)
  then have "nan_or_ge (2 powr of_int k) (to_double (sqrt x))"
    using assms(2) by (intro to_double_ge_powr)
  moreover have "0 < (2::real) powr of_int (2 * k)" by simp
  then have "\<not> x < 0" using x by linarith
  ultimately show ?thesis using Finite by simp
qed (use assms in simp_all)

lemma mul_nan_or_ge:
  assumes "nan_or_ge (2 powr of_int j) a" "nan_or_ge (2 powr of_int k) b" "- 1074 \<le> j + k"
  shows "nan_or_ge (2 powr of_int (j + k)) (a * b)"
proof -
  have pos: "0 < (2::real) powr of_int j" "0 < (2::real) powr of_int k" by simp_all
  have fin: "nan_or_ge (2 powr of_int (j + k)) (to_double (x * y))"
    if "2 powr of_int j \<le> x" "2 powr of_int k \<le> y" for x y
  proof -
    have "0 \<le> x" using that(1) pos(1) by linarith
    then have "2 powr of_int j * 2 powr of_int k \<le> x * y"
      using that by (intro mult_mono) simp_all
    then have "2 powr of_int (j + k) \<le> x * y" by (simp only: powr_int_shift)
    then show ?thesis using assms(3) by (intro to_double_ge_powr)
  qed
  show ?thesis
  proof (cases a)
    case a: (Finite x)
    then have x: "2 powr of_int j \<le> x" using assms(1) by simp
    then have "0 < x" using pos(1) by linarith
    then show ?thesis using assms(2) a x fin
      by (cases b) (simp_all add: times_double_def signed_inf_def)
  next
    case a: PlusInf
    show ?thesis
    proof (cases b)
      case (Finite y)
      then have "2 powr of_int k \<le> y" using assms(2) by simp
      then have "0 < y" using pos(2) by linarith
      then show ?thesis using a Finite by (simp add: times_double_def signed_inf_def)
    qed (use assms(2) a in \<open>simp_all add: times_double_def\<close>)
  qed (use assms(1) in \<open>simp_all add: times_double_def\<close>)
qed

lemma dist_soft_nan_or_ge:
  assumes "nan_or_ge (2 powr of_int (2 * k)) softening" "- 1074 \<le> 2 * k"
  shows "nan_or_ge (2 powr of_int k) (dist_soft double_sqrt softening body_i body_j)"
proof -
  have "- 1074 \<le> k" using assms(2) by linarith
  then show ?thesis
    unfolding dist_soft_def Let_def
    by (intro sqrt_nan_or_ge add_nan_or_ge add_nan_or_ge_0 square_nan_or_ge assms)
qed

lemma dist_cube_nan_or_ge:
  assumes "nan_or_ge (2 powr (- 716)) softening"
  shows "nan_or_ge (2 powr (- 1074)) (dist_cube double_sqrt softening body_i body_j)"
proof -
  have "nan_or_ge (2 powr of_int (2 * (- 358))) softening" using assms by simp
  then have d: "nan_or_ge (2 powr of_int (- 358)) (dist_soft double_sqrt softening body_i body_j)"
    by (rule dist_soft_nan_or_ge) simp
  have "nan_or_ge (2 powr of_int (- 358 + - 358))
          (dist_soft double_sqrt softening body_i body_j * dist_soft double_sqrt softening body_i body_j)"
    using d d by (rule mul_nan_or_ge) simp
  then have "nan_or_ge (2 powr of_int (- 358 + - 358 + - 358))
          (dist_soft double_sqrt softening body_i body_j * dist_soft double_sqrt softening body_i body_j
             * dist_soft double_sqrt softening body_i body_j)"
    using d by (rule mul_nan_or_ge) simp
  then show ?thesis by (simp add: dist_cube_def Let_def)
qed


subsection \<open>Rounding between two doubles\<close>

lemma is_double_Finite: "is_double (Finite a) \<longleftrightarrow> to_double a = Finite a"
  by (simp add: is_double_def)

lemma to_double_FiniteD:
  assumes "to_double a = Finite b"
  shows "b = round64 a" "\<bar>round64 a\<bar> \<le> max_double"
  using assms by (auto simp: to_double_def Let_def split: if_splits)

lemma to_double_Finite:
  assumes "\<bar>round64 x\<bar> \<le> max_double"
  shows "to_double x = Finite (round64 x)"
proof -
  have "\<not> max_double < round64 x" "\<not> round64 x < - max_double"
    using assms by linarith+
  then show ?thesis by (simp add: to_double_def)
qed

text \<open>Rounding stays between two doubles.\<close>

lemma to_double_between:
  assumes "to_double lo = Finite lo" "to_double hi = Finite hi" "lo \<le> x" "x \<le> hi"
  shows "to_double x = Finite (round64 x) \<and> lo \<le> round64 x \<and> round64 x \<le> hi"
proof -
  note l = to_double_FiniteD [OF assms(1)] and h = to_double_FiniteD [OF assms(2)]
  have a: "lo \<le> round64 x" using assms(3) l(1) [symmetric] by (rule round64_ge)
  have b: "round64 x \<le> hi" using assms(4) h(1) [symmetric] by (rule round64_le)
  have "\<bar>round64 x\<bar> \<le> max_double" using a b l h by linarith
  then show ?thesis using a b by (simp add: to_double_Finite)
qed

lemma to_double_round64:
  assumes "\<bar>round64 x\<bar> \<le> max_double"
  shows "to_double (round64 x) = Finite (round64 x)"
  using assms by (simp add: to_double_Finite round64_idem)

lemma to_double_one: "to_double 1 = Finite 1"
  using to_double_powr [of 0] by simp

lemma to_double_two_powr:
  assumes "- 1074 \<le> e" "e \<le> 1023"
  shows "to_double (2 powr of_int e) = Finite (2 powr of_int e)"
proof -
  have "(2::real) powr (- 52) \<le> 2 powr 0" by (intro powr_mono) simp_all
  then have a: "(1::real) \<le> 2 - 2 powr (- 52)" by simp
  have "(2::real) powr of_int e \<le> 2 powr 1023" using assms(2) by (intro powr_mono) simp_all
  also have "\<dots> = 1 * 2 powr 1023" by simp
  also have "\<dots> \<le> (2 - 2 powr (- 52)) * 2 powr 1023"
    using a by (intro mult_right_mono) simp_all
  finally have "2 powr of_int e \<le> max_double" by (simp add: max_double_def)
  then have "\<bar>round64 (2 powr of_int e)\<bar> \<le> max_double"
    by (simp add: round64_two_powr [OF assms(1)])
  then show ?thesis by (simp add: to_double_Finite round64_two_powr [OF assms(1)])
qed

lemma to_double_two: "to_double 2 = Finite 2"
  using to_double_two_powr [of 1] by simp

lemma to_double_minus:
  assumes "to_double a = Finite a"
  shows "to_double (- a) = Finite (- a)"
proof -
  note to_double_FiniteD [OF assms]
  then have "round64 (- a) = - a" "\<bar>round64 (- a)\<bar> \<le> max_double"
    by (simp_all add: round64_minus)
  then show ?thesis using to_double_Finite [of "- a"] by simp
qed

section \<open>N-body step: the claims on the numbers\<close>

subsection \<open>The claim on the divisor\<close>

text \<open>
  Claim C5, as stated, fails on doubles. Two bodies at the same position and the softening
  \<open>2 ^ (- 1000)\<close>, which is above 0: the softened distance is \<open>2 ^ (- 500)\<close>, its cube is
  below the smallest double and rounds to 0, so the loop divides by 0 and both
  acceleration terms of the pair are NaN.
\<close>

theorem divisor_underflows_to_zero:
  "0 < tiny_softening \<and>
   dist_cube double_sqrt (Finite tiny_softening) coincident_body coincident_body = Finite 0 \<and>
   pair_accel double_sqrt (Finite 1) (Finite tiny_softening) coincident_body coincident_body = (NaN, NaN)"
proof -
  have a: "to_double (2 powr (- 1000)) = Finite (2 powr (- 1000))"
    using to_double_powr [of "- 1000"] by simp
  have "(2::real) powr (- 1500) < 2 powr (- 1075)" by (intro powr_less_mono) simp_all
  then have c: "to_double (2 powr (- 1500)) = Finite 0"
    by (intro to_double_underflow) simp_all
  have m: "(2::real) powr (- 500) * 2 powr (- 500) = 2 powr (- 1000)"
    "(2::real) powr (- 1000) * 2 powr (- 500) = 2 powr (- 1500)"
    by (simp_all add: powr_add [symmetric])
  have one: "to_double 1 = Finite 1"
    using to_double_powr [of 0] by simp
  have cube: "dist_cube double_sqrt (Finite tiny_softening) coincident_body coincident_body = Finite 0"
    by (simp add: dist_cube_def dist_soft_tiny times_double_def m a c)
  have f: "body_x coincident_body = Finite 0" "body_y coincident_body = Finite 0"
    "body_m coincident_body = Finite 1"
    by (simp_all add: coincident_body_def)
  have "pair_accel double_sqrt (Finite 1) (Finite tiny_softening) coincident_body coincident_body = (NaN, NaN)"
    by (simp add: pair_accel_def Let_def cube f divide_double_def one_double_def signed_inf_def
          times_double_def minus_double_def plus_double_def to_double_zero one)
  then show ?thesis using cube by (simp add: tiny_softening_def)
qed

text \<open>
  The same happens with the softening \<open>2 ^ (- 718)\<close>: the softened distance is
  \<open>2 ^ (- 359)\<close> and its cube rounds to 0.
\<close>

lemma divisor_zero_near_bound:
  "dist_cube double_sqrt (Finite (2 powr (- 718))) coincident_body coincident_body = Finite 0"
proof -
  have s: "sqrt (2 powr (- 718)) = 2 powr (- 359)"
    using sqrt_two_powr [of "- 359"] by simp
  have a: "to_double (2 powr (- 718)) = Finite (2 powr (- 718))"
    using to_double_powr [of "- 718"] by simp
  have b: "to_double (2 powr (- 359)) = Finite (2 powr (- 359))"
    using to_double_powr [of "- 359"] by simp
  have "(2::real) powr (- 1077) < 2 powr (- 1075)" by (intro powr_less_mono) simp_all
  then have c: "to_double (2 powr (- 1077)) = Finite 0"
    by (intro to_double_underflow) simp_all
  have m: "(2::real) powr (- 359) * 2 powr (- 359) = 2 powr (- 718)"
    "(2::real) powr (- 718) * 2 powr (- 359) = 2 powr (- 1077)"
    by (simp_all add: powr_add [symmetric])
  have f: "body_x coincident_body = Finite 0" "body_y coincident_body = Finite 0"
    by (simp_all add: coincident_body_def)
  have "dist_soft double_sqrt (Finite (2 powr (- 718))) coincident_body coincident_body
        = Finite (2 powr (- 359))"
    by (simp add: dist_soft_def f minus_double_def plus_double_def times_double_def
          to_double_zero a b s)
  then show ?thesis
    by (simp add: dist_cube_def times_double_def m a c)
qed

text \<open>
  Claim C5, amended. On doubles, with a softening of at least \<open>2 ^ (- 716)\<close>, an infinite
  one included, the divisor of the one division of the acceleration loop, the cube of the
  softened distance, is not zero, for every two bodies and whatever their fields hold, equal
  positions included: it is a NaN or at least \<open>2 ^ (- 1074)\<close>, the smallest double above
  0, and the softened distance is a NaN or at least \<open>2 ^ (- 358)\<close>. Every operation of
  the loop rounds once.
\<close>

theorem softened_divisor_nonzero:
  assumes "double_le (Finite (2 powr (- 716))) softening"
  shows "dist_cube double_sqrt softening body_i body_j \<noteq> 0 \<and>
         (dist_cube double_sqrt softening body_i body_j = NaN \<or>
          double_le (Finite (2 powr (- 1074))) (dist_cube double_sqrt softening body_i body_j)) \<and>
         (dist_soft double_sqrt softening body_i body_j = NaN \<or>
          double_le (Finite (2 powr (- 358))) (dist_soft double_sqrt softening body_i body_j))"
proof -
  have s: "nan_or_ge (2 powr (- 716)) softening" using assms by (simp add: nan_or_ge_def)
  have c: "nan_or_ge (2 powr (- 1074)) (dist_cube double_sqrt softening body_i body_j)"
    using s by (rule dist_cube_nan_or_ge)
  have "nan_or_ge (2 powr of_int (2 * (- 358))) softening" using s by simp
  then have d: "nan_or_ge (2 powr of_int (- 358)) (dist_soft double_sqrt softening body_i body_j)"
    by (rule dist_soft_nan_or_ge) simp
  have "dist_cube double_sqrt softening body_i body_j \<noteq> Finite 0"
  proof
    assume "dist_cube double_sqrt softening body_i body_j = Finite 0"
    then have "(2::real) powr (- 1074) \<le> 0" using c by simp
    moreover have "0 < (2::real) powr (- 1074)" by simp
    ultimately show False by linarith
  qed
  then show ?thesis using c d by (simp add: nan_or_ge_def zero_double_def)
qed

theorem softened_divisor_nonzero_witness:
  "double_le (Finite (2 powr (- 716))) (Finite 1) \<and>
   dist_cube double_sqrt (Finite 1) coincident_body coincident_body \<noteq> 0"
proof -
  have "(2::real) powr (- 716) \<le> 2 powr 0" by (intro powr_mono) simp_all
  then have h: "double_le (Finite (2 powr (- 716))) (Finite 1)" by simp
  from softened_divisor_nonzero [OF h, of coincident_body coincident_body] h
  show ?thesis by blast
qed

subsection \<open>The claim on small systems\<close>

lemma double_add_zero:
  assumes "is_double a"
  shows "a + Finite 0 * Finite d = a"
  using assms by (cases a) (simp_all add: is_double_def plus_double_def times_double_def to_double_zero)

lemma moving_body_fields:
  "body_x moving_body = Finite 0" "body_y moving_body = Finite 0"
  "body_vx moving_body = Finite 1" "body_vy moving_body = Finite 0"
  "body_m moving_body = Finite 1"
  by (simp_all add: moving_body_def)

text \<open>
  Claim C6, as stated, fails on doubles. One body with \<open>vx = 1\<close> and an infinite \<open>dt\<close>:
  the acceleration is 0, and \<open>0 * dt\<close> is a NaN, so the body comes back with a NaN as its
  velocity, and with it as its position.
\<close>

theorem single_body_infinite_dt:
  "is_double (body_vx moving_body) \<and> body_vx moving_body = Finite 1 \<and>
   ax (nbody_step_vars double_sqrt [moving_body] PlusInf (Finite 1) (Finite 1)) = [Finite 0] \<and>
   nbody_step_update double_sqrt [moving_body] PlusInf (Finite 1) (Finite 1)
   = [moving_body\<lparr>body_x := NaN, body_y := NaN, body_vx := NaN, body_vy := NaN\<rparr>]"
  by (simp add: nbody_step_vars_eq nbody_step_update_eq single_body_accel_cy euler_body_def
        moving_body_fields is_double_def to_double_one zero_double_def
        plus_double_def times_double_def)

text \<open>
  Claim C6, amended. With no body or one body, every acceleration that \<^verbatim>\<open>nbody_step_update\<close>
  computes is 0, for every number type: the accumulators start at 0 and nothing is added
  to them, and the body that comes back is the Euler step with the acceleration 0. On
  doubles, with a finite \<open>dt\<close>, a single body whose velocity holds doubles comes back with
  its velocity and mass as they were, and its position is \<open>x + vx * dt\<close> and
  \<open>y + vy * dt\<close>, each product and each sum rounded once.
\<close>

theorem small_system_finite_dt:
  fixes bs :: "'a::{zero,one,plus,minus,times,inverse} Body list" and b :: "double Body"
  assumes "length bs \<le> 1"
  shows "ax (nbody_step_vars sqrt_d bs dt G softening) = replicate (length bs) 0 \<and>
         ay (nbody_step_vars sqrt_d bs dt G softening) = replicate (length bs) 0 \<and>
         nbody_step_update sqrt_d bs dt G softening = map (euler_body dt (0, 0)) bs \<and>
         (is_double (body_vx b) \<and> is_double (body_vy b) \<longrightarrow>
            nbody_step_update double_sqrt [b] (Finite d) G' softening'
            = [b\<lparr>body_x := body_x b + body_vx b * Finite d,
                 body_y := body_y b + body_vy b * Finite d\<rparr>])"
proof -
  have 1: "ax (nbody_step_vars sqrt_d bs dt G softening) = replicate (length bs) 0 \<and>
         ay (nbody_step_vars sqrt_d bs dt G softening) = replicate (length bs) 0 \<and>
         nbody_step_update sqrt_d bs dt G softening = map (euler_body dt (0, 0)) bs"
  proof (cases bs)
    case Nil
    then show ?thesis by (simp add: nbody_step_vars_eq nbody_step_update_eq)
  next
    case (Cons b' rest)
    then have "bs = [b']" using assms by simp
    then show ?thesis
      by (simp add: nbody_step_vars_eq nbody_step_update_eq single_body_accel_cy)
  qed
  have 2: "nbody_step_update double_sqrt [b] (Finite d) G' softening'
            = [b\<lparr>body_x := body_x b + body_vx b * Finite d,
                 body_y := body_y b + body_vy b * Finite d\<rparr>]"
    if "is_double (body_vx b)" "is_double (body_vy b)"
    using that
    by (simp add: nbody_step_update_eq single_body_accel_cy euler_body_def zero_double_def
          double_add_zero)
  from 1 2 show ?thesis by simp
qed

theorem small_system_finite_dt_witness:
  "length [moving_body] \<le> 1 \<and> is_double (body_vx moving_body) \<and> is_double (body_vy moving_body) \<and>
   ax (nbody_step_vars double_sqrt [moving_body] (Finite 2) (Finite 1) (Finite 1)) = [Finite 0] \<and>
   nbody_step_update double_sqrt [moving_body] (Finite 2) (Finite 1) (Finite 1)
   = [moving_body\<lparr>body_x := Finite 2\<rparr>]"
proof -
  have h: "length [moving_body] \<le> 1" "is_double (body_vx moving_body)" "is_double (body_vy moving_body)"
    by (simp_all add: moving_body_fields is_double_def to_double_one to_double_zero)
  note T = small_system_finite_dt [where bs = "[moving_body]" and b = moving_body
      and sqrt_d = double_sqrt and dt = "Finite 2" and G = "Finite 1" and softening = "Finite 1"
      and d = 2 and G' = "Finite 1" and softening' = "Finite 1", OF h(1)]
  have "nbody_step_update double_sqrt [moving_body] (Finite 2) (Finite 1) (Finite 1)
        = [moving_body\<lparr>body_x := body_x moving_body + body_vx moving_body * Finite 2,
                 body_y := body_y moving_body + body_vy moving_body * Finite 2\<rparr>]"
    using T h by blast
  also have "\<dots> = [moving_body\<lparr>body_x := Finite 2\<rparr>]"
    by (simp add: moving_body_def plus_double_def times_double_def to_double_two to_double_zero)
  finally have u: "nbody_step_update double_sqrt [moving_body] (Finite 2) (Finite 1) (Finite 1)
        = [moving_body\<lparr>body_x := Finite 2\<rparr>]" .
  have "ax (nbody_step_vars double_sqrt [moving_body] (Finite 2) (Finite 1) (Finite 1)) = [Finite 0]"
    using T by (simp add: zero_double_def)
  with u h show ?thesis by simp
qed

subsection \<open>The claims on the update\<close>

text \<open>
  Claim C7. For body \<open>i\<close>, \<^verbatim>\<open>ax[i]\<close> and \<^verbatim>\<open>ay[i]\<close> are the sums of the pair
  contributions over the bodies as they were before the step; the new velocity is the old
  one plus acceleration times \<open>dt\<close>, and the new position is the old one plus the new
  velocity times \<open>dt\<close>. The Cython kernel computes the same body.
\<close>

theorem velocity_before_position:
  assumes "i < length bs"
  shows "let a = accel_cy sqrt_d G softening bs i;
             b = bs ! i;
             b' = nbody_step_update sqrt_d bs dt G softening ! i
         in ax (nbody_step_vars sqrt_d bs dt G softening) ! i = fst a \<and>
            ay (nbody_step_vars sqrt_d bs dt G softening) ! i = snd a \<and>
            body_vx b' = body_vx b + fst a * dt \<and>
            body_vy b' = body_vy b + snd a * dt \<and>
            body_x b' = body_x b + body_vx b' * dt \<and>
            body_y b' = body_y b + body_vy b' * dt \<and>
            kernel_cy sqrt_d bs dt G softening ! i = b'"
  using assms
  by (simp add: Let_def nbody_step_vars_eq nbody_step_update_eq kernel_cy_eq euler_body_def)

theorem velocity_before_position_witness:
  "(1::nat) < length example_bodies \<and>
   body_x (nbody_step_update sqrt example_bodies 2 1 1 ! 1)
   = body_x (example_bodies ! 1) + body_vx (nbody_step_update sqrt example_bodies 2 1 1 ! 1) * 2"
  using velocity_before_position [of 1 example_bodies sqrt 1 1 2]
  by (simp add: Let_def example_bodies_def)

text \<open>
  Claim C9. \<^verbatim>\<open>nbody_step_update\<close> returns as many bodies as it was given; body \<open>i\<close> of
  the result is body \<open>i\<close> of the input after its update, and has the mass of body \<open>i\<close> of
  the input. The Cython function returns the list it was given, in the same order, with the
  key \<open>m\<close> of every dictionary as before; the dictionary at position \<open>i\<close> held body \<open>i\<close>
  of the copy, and afterwards it holds the update of the body at the last position \<open>L\<close> of
  the list that refers to this dictionary, which is \<open>i\<close> itself when no dictionary occurs
  twice in the list; the mass is that of body \<open>i\<close>.
\<close>

theorem nbody_step_length_order_mass:
  fixes bs :: "'a::{zero,one,plus,minus,times,inverse} Body list"
  shows "length (nbody_step_update sqrt_d bs dt G softening) = length bs \<and>
   (\<forall>i<length bs.
      nbody_step_update sqrt_d bs dt G softening ! i
        = euler_body dt (accel_cy sqrt_d G softening bs i) (bs ! i) \<and>
      body_m (nbody_step_update sqrt_d bs dt G softening ! i) = body_m (bs ! i)) \<and>
   (\<forall>h refs body_array. copy_in h refs = Inr body_array \<longrightarrow>
      (\<exists>h'. nbody_step_update_cy sqrt_d True h refs dt G softening = Inr (h', refs) \<and>
         (\<forall>r. h' r ''m'' = h r ''m'') \<and>
         (\<forall>i<length refs.
            dict_holds (h (refs ! i)) (body_array ! i) \<and>
            (\<exists>L. last_index refs (refs ! i) = Some L \<and> i \<le> L \<and> L < length refs \<and>
                 refs ! L = refs ! i \<and> (distinct refs \<longrightarrow> L = i) \<and>
                 dict_holds (h' (refs ! i))
                   (euler_body dt (accel_cy sqrt_d G softening body_array L) (body_array ! L)) \<and>
                 body_m (euler_body dt (accel_cy sqrt_d G softening body_array L) (body_array ! L))
                   = body_m (body_array ! i)))))"
proof (intro conjI allI impI)
  show "length (nbody_step_update sqrt_d bs dt G softening) = length bs"
    by (simp add: nbody_step_update_eq)
  fix i assume "i < length bs"
  then show "nbody_step_update sqrt_d bs dt G softening ! i
        = euler_body dt (accel_cy sqrt_d G softening bs i) (bs ! i)"
    "body_m (nbody_step_update sqrt_d bs dt G softening ! i) = body_m (bs ! i)"
    by (simp_all add: nbody_step_update_eq euler_body_def)
next
  fix h :: "'a py_store" and refs body_array
  assume c: "copy_in h refs = Inr body_array"
  define new where "new = nbody_step_update sqrt_d body_array dt G softening"
  define h' where "h' = write_back refs new h"
  have len: "length body_array = length refs"
    and rd: "\<And>i. i < length refs \<Longrightarrow> dict_holds (h (refs ! i)) (body_array ! i)"
    using copy_in_Inr [OF c] by (auto intro: read_body_holds)
  have new: "new ! L = euler_body dt (accel_cy sqrt_d G softening body_array L) (body_array ! L)"
    if "L < length refs" for L
    using that len by (simp add: new_def nbody_step_update_eq)
  have "\<exists>L. last_index refs (refs ! i) = Some L \<and> i \<le> L \<and> L < length refs \<and>
                 refs ! L = refs ! i \<and> (distinct refs \<longrightarrow> L = i) \<and>
                 dict_holds (h' (refs ! i))
                   (euler_body dt (accel_cy sqrt_d G softening body_array L) (body_array ! L)) \<and>
                 body_m (euler_body dt (accel_cy sqrt_d G softening body_array L) (body_array ! L))
                   = body_m (body_array ! i)"
    if i: "i < length refs" for i
  proof -
    obtain L where L: "last_index refs (refs ! i) = Some L" "i \<le> L" "L < length refs"
      "refs ! L = refs ! i" "distinct refs \<longrightarrow> L = i"
      using last_index_nth [OF i] by blast
    have mi: "h (refs ! i) ''m'' = Some (body_m (body_array ! i))"
      using rd [OF i] by (simp add: dict_holds_def)
    have mL: "h (refs ! i) ''m'' = Some (body_m (body_array ! L))"
      using rd [OF L(3)] L(4) by (simp add: dict_holds_def)
    have m: "body_m (new ! L) = body_m (body_array ! i)"
      using mi mL by (simp add: new [OF L(3)] euler_body_def)
    have "h' (refs ! i) = written new L (h (refs ! i))"
      by (simp add: h'_def write_back_last L(1))
    moreover have "dict_holds (written new L (h (refs ! i))) (new ! L)"
      by (rule written_holds) (simp add: mi m)
    ultimately show ?thesis using L m by (auto simp: new [OF L(3)])
  qed
  then show "\<exists>h'. nbody_step_update_cy sqrt_d True h refs dt G softening = Inr (h', refs) \<and>
         (\<forall>r. h' r ''m'' = h r ''m'') \<and>
         (\<forall>i<length refs.
            dict_holds (h (refs ! i)) (body_array ! i) \<and>
            (\<exists>L. last_index refs (refs ! i) = Some L \<and> i \<le> L \<and> L < length refs \<and>
                 refs ! L = refs ! i \<and> (distinct refs \<longrightarrow> L = i) \<and>
                 dict_holds (h' (refs ! i))
                   (euler_body dt (accel_cy sqrt_d G softening body_array L) (body_array ! L)) \<and>
                 body_m (euler_body dt (accel_cy sqrt_d G softening body_array L) (body_array ! L))
                   = body_m (body_array ! i)))"
    using rd by (intro exI [of _ h']) (simp add: nbody_step_update_cy_eq [OF c] h'_def new_def write_back_m)
qed

theorem nbody_step_length_order_mass_witness:
  "(1::nat) < length example_bodies \<and>
   copy_in example_store [0] = Inr [\<lparr>body_x = 0, body_y = 0, body_vx = 1, body_vy = 0, body_m = 1\<rparr>] \<and>
   (0::nat) < length [0::nat] \<and> distinct [0::nat] \<and>
   length (nbody_step_update sqrt example_bodies 2 1 1) = 2 \<and>
   body_m (nbody_step_update sqrt example_bodies 2 1 1 ! 1) = 3 \<and>
   (\<exists>h'. nbody_step_update_cy sqrt True example_store [0] 2 1 1 = Inr (h', [0]) \<and>
      h' 0 ''m'' = Some 1 \<and> h' 0 ''vx'' = Some 1 \<and> h' 0 ''x'' = Some 2)"
proof -
  note T = nbody_step_length_order_mass [of sqrt example_bodies 2 1 1]
  have len: "length example_bodies = 2" by (simp add: example_bodies_def)
  have 1: "length (nbody_step_update sqrt example_bodies 2 1 1) = 2"
    using T len by simp
  have "body_m (nbody_step_update sqrt example_bodies 2 1 1 ! 1) = body_m (example_bodies ! 1)"
    using T [THEN conjunct2, THEN conjunct1, rule_format, of 1] len by (simp add: euler_body_def)
  then have 2: "body_m (nbody_step_update sqrt example_bodies 2 1 1 ! 1) = 3"
    by (simp add: example_bodies_def)
  define b :: "real Body" where "b = \<lparr>body_x = 0, body_y = 0, body_vx = 1, body_vy = 0, body_m = 1\<rparr>"
  have c: "copy_in example_store [0] = Inr [b]" unfolding b_def by (rule example_copy_in)
  obtain h' where h: "nbody_step_update_cy sqrt True example_store [0] 2 1 1 = Inr (h', [0])"
    "\<forall>r. h' r ''m'' = example_store r ''m''"
    and d: "\<forall>i<length [0::nat]. \<exists>L. L < length [0::nat] \<and>
             dict_holds (h' ([0] ! i)) (euler_body 2 (accel_cy sqrt 1 1 [b] L) ([b] ! L))"
    using T [THEN conjunct2, THEN conjunct2, rule_format, OF c] by blast
  from d obtain L where "L < length [0::nat]"
    "dict_holds (h' ([0] ! 0)) (euler_body 2 (accel_cy sqrt 1 1 [b] L) ([b] ! L))"
    by auto
  then have "dict_holds (h' 0) (euler_body 2 (0, 0) b)"
    by (simp add: single_body_accel_cy)
  then have "h' 0 ''vx'' = Some 1" "h' 0 ''x'' = Some 2"
    by (simp_all add: dict_holds_def euler_body_def b_def)
  moreover have "h' 0 ''m'' = Some 1" using h(2) by (simp add: example_store_def)
  ultimately have "\<exists>h'. nbody_step_update_cy sqrt True example_store [0] 2 1 1 = Inr (h', [0]) \<and>
      h' 0 ''m'' = Some 1 \<and> h' 0 ''vx'' = Some 1 \<and> h' 0 ''x'' = Some 2"
    using h(1) by blast
  with 1 2 len example_copy_in show ?thesis by simp
qed


section \<open>Fourier transform: proofs\<close>

lemma and_pred_even:
  fixes m :: int
  assumes "1 \<le> m"
  shows "(2 * m) AND (2 * m - 1) = 2 * (m AND (m - 1))"
proof -
  have "(2 * m - 1) div 2 = m - 1" by simp
  moreover have "(2 * m) mod 2 = 0" by simp
  ultimately show ?thesis
    using assms by (subst and_int_rec) simp
qed

lemma and_pred_odd:
  fixes m :: int
  assumes "1 \<le> m"
  shows "(2 * m + 1) AND (2 * m + 1 - 1) = 2 * m"
proof -
  have "(2 * m + 1) AND (2 * m) = 2 * (m AND m)"
    using assms by (subst and_int_rec) simp
  then show ?thesis by simp
qed

lemma pow2_of_and_pred_zero:
  assumes "0 < n" "int n AND (int n - 1) = 0"
  shows "\<exists>k. n = 2 ^ k"
  using assms
proof (induction n rule: less_induct)
  case (less n)
  show ?case
  proof (cases "n = 1")
    case True
    then have "n = 2 ^ 0" by simp
    then show ?thesis by blast
  next
    case False
    then have n2: "2 \<le> n" using less.prems by simp
    define m where "m = n div 2"
    have m1: "1 \<le> m" using n2 by (simp add: m_def)
    show ?thesis
    proof (cases "even n")
      case True
      then have n: "n = 2 * m" by (auto simp: m_def)
      have e: "int n = 2 * int m" by (simp add: n)
      have "int n AND (int n - 1) = 2 * (int m AND (int m - 1))"
        unfolding e by (rule and_pred_even) (use m1 in simp)
      then have "int m AND (int m - 1) = 0" using less.prems(2) by simp
      moreover have "m < n" "0 < m" using n m1 by simp_all
      ultimately obtain k where "m = 2 ^ k" using less.IH by blast
      then have "n = 2 ^ Suc k" by (simp add: n)
      then show ?thesis by blast
    next
      case False
      then have n: "n = 2 * m + 1" by (auto simp: m_def elim: oddE)
      have e: "int n = 2 * int m + 1" by (simp add: n)
      have "int n AND (int n - 1) = 2 * int m"
        unfolding e by (rule and_pred_odd) (use m1 in simp)
      then show ?thesis using less.prems(2) m1 by simp
    qed
  qed
qed

lemma dft_naive_Nil: "dft_naive [] = []"
  by (simp add: dft_naive_def)

lemma fft_iterative_Nil: "fft_iterative [] = Some []"
  by (simp add: fft_iterative_def bit_reverse_permute_def fft_stages.simps)

lemma fft_iterative_cy_Nil: "fft_iterative_cy [] = Some (Inr [])"
  by (simp add: fft_iterative_cy_def bit_reverse_permute_def fft_stages.simps)

subsection \<open>The claim on the fallback\<close>

text \<open>
  Claim C2, as stated, fails for the Cython variants: on a sequence of length 3 both raise
  \<^verbatim>\<open>ValueError\<close>.
\<close>

theorem fft_cy_raises_on_three:
  "fft_cooley_tukey_cy [1, 2, 3] = Inl ValueError \<and>
   fft_iterative_cy [1, 2, 3] = Some (Inl ValueError)"
  by (simp add: fft_iterative_cy_def)

text \<open>
  Claim C2, amended. For a sequence whose length is not a power of two, the C++
  \<^verbatim>\<open>fft_cooley_tukey\<close> and \<^verbatim>\<open>fft_iterative\<close> raise nothing and return what
  \<^verbatim>\<open>dft_naive\<close> returns. The Cython variants raise \<^verbatim>\<open>ValueError\<close> when the
  sequence is not empty, and return the empty sequence when it is.
\<close>

theorem fft_fallback:
  assumes "\<not> (\<exists>k. length x = 2 ^ k)"
  shows "fft_cooley_tukey x = dft_naive x \<and>
         fft_iterative x = Some (dft_naive x) \<and>
         (x \<noteq> [] \<longrightarrow>
            fft_cooley_tukey_cy x = Inl ValueError \<and> fft_iterative_cy x = Some (Inl ValueError)) \<and>
         (x = [] \<longrightarrow> fft_cooley_tukey_cy x = Inr [] \<and> fft_iterative_cy x = Some (Inr []))"
proof (cases "x = []")
  case True
  then show ?thesis by (simp add: dft_naive_Nil fft_iterative_Nil fft_iterative_cy_Nil)
next
  case False
  then have pos: "0 < length x" by simp
  then have nz: "int (length x) AND (int (length x) - 1) \<noteq> 0"
    using assms pow2_of_and_pred_zero by blast
  have "length x \<noteq> 1" using assms by (metis power_0)
  then have gt: "\<not> length x \<le> 1" using False by (cases x) auto
  show ?thesis
    using False nz gt by (simp add: fft_iterative_def fft_iterative_cy_def)
qed

theorem fft_fallback_witness:
  "\<not> (\<exists>k. length [1, 2, 3 :: complex] = 2 ^ k) \<and>
   fft_cooley_tukey [1, 2, 3] = dft_naive [1, 2, 3] \<and>
   fft_iterative [1, 2, 3] = Some (dft_naive [1, 2, 3])"
proof -
  have h: "\<not> (\<exists>k. length [1, 2, 3 :: complex] = 2 ^ k)"
  proof
    assume "\<exists>k. length [1, 2, 3 :: complex] = 2 ^ k"
    then obtain k where k: "length [1, 2, 3 :: complex] = 2 ^ k" ..
    show False
    proof (cases k)
      case 0
      then show ?thesis using k by simp
    next
      case (Suc j)
      then have "even (length [1, 2, 3 :: complex])" using k by simp
      then show ?thesis by simp
    qed
  qed
  from fft_fallback [OF h] h show ?thesis by simp
qed

section \<open>Random initial bodies: proofs\<close>

subsection \<open>The unit value and the fields\<close>

text \<open>\<^verbatim>\<open>rand() / RAND_MAX\<close> is a double between 0 and 1.\<close>

lemma rand_unit_range:
  assumes "1 \<le> RAND_MAX" "RAND_MAX < 2 ^ 31" "r \<le> RAND_MAX"
  shows "\<exists>u. rand_unit RAND_MAX r = Finite u \<and> 0 \<le> u \<and> u \<le> 1"
proof -
  have p31: "to_double (2 powr of_int 31) = Finite (2 powr of_int 31)"
    by (rule to_double_two_powr) simp_all
  have e31: "(2::real) powr of_int 31 = 2 ^ 31" by (simp add: powr_numeral)
  have R1: "(1::real) \<le> of_nat RAND_MAX" using assms(1) by simp
  have "real RAND_MAX \<le> real (2 ^ 31)" using assms(2) by (simp only: of_nat_le_iff)
  then have R2: "real RAND_MAX \<le> 2 powr of_int 31" by (simp add: e31)
  have r2: "real r \<le> 2 powr of_int 31" using assms(3) R2 by simp
  from to_double_between [OF to_double_one p31 R1 R2]
  have R: "to_double (of_nat RAND_MAX) = Finite (round64 (of_nat RAND_MAX))"
    "1 \<le> round64 (real RAND_MAX)" by simp_all
  from to_double_between [OF to_double_zero p31 _ r2]
  have r: "to_double (of_nat r) = Finite (round64 (of_nat r))" "0 \<le> round64 (real r)"
    by simp_all
  have le: "round64 (real r) \<le> round64 (real RAND_MAX)"
    using assms(3) by (intro round64_mono) simp
  have q: "0 \<le> round64 (real r) / round64 (real RAND_MAX)"
    "round64 (real r) / round64 (real RAND_MAX) \<le> 1"
    using r(2) R(2) le by (simp_all add: divide_le_eq)
  from to_double_between [OF to_double_zero to_double_one q]
  show ?thesis using R r by (simp add: rand_unit_def divide_double_def)
qed

lemma double_mul_range:
  assumes "0 \<le> u" "u \<le> 1" "to_double B = Finite B" "0 \<le> B"
  shows "\<exists>p. Finite u * Finite B = Finite p \<and> Finite B * Finite u = Finite p \<and>
             p = round64 (u * B) \<and> 0 \<le> p \<and> p \<le> B"
proof -
  have "0 \<le> u * B" "u * B \<le> B"
    using assms by (simp_all add: mult_left_le_one_le)
  from to_double_between [OF to_double_zero assms(3) this]
  show ?thesis by (simp add: times_double_def mult.commute)
qed

lemma velocity_range:
  assumes "0 \<le> u" "u \<le> 1"
  shows "\<exists>v. Finite u * Finite 2 - Finite 1 = Finite v \<and> - 1 \<le> v \<and> v \<le> 1"
proof -
  obtain p where p: "Finite u * Finite 2 = Finite p" "0 \<le> p" "p \<le> 2"
    using double_mul_range [OF assms to_double_two] by auto
  have m1: "to_double (- 1) = Finite (- 1)" using to_double_minus [OF to_double_one] by simp
  have "- 1 \<le> p + - 1" "p + - 1 \<le> 1" using p by simp_all
  from to_double_between [OF m1 to_double_one this]
  show ?thesis by (simp add: p(1) minus_double_def)
qed

lemma velocity_range_cy:
  assumes "0 \<le> u" "u \<le> 1"
  shows "\<exists>v. uniform (Finite (- 1)) (Finite 1) (Finite u) = Finite v \<and> - 1 \<le> v \<and> v \<le> 1"
proof -
  obtain p where p: "Finite 2 * Finite u = Finite p" "0 \<le> p" "p \<le> 2"
    using double_mul_range [OF assms to_double_two] by auto
  have m1: "to_double (- 1) = Finite (- 1)" using to_double_minus [OF to_double_one] by simp
  have "- 1 \<le> - 1 + p" "- 1 + p \<le> 1" using p by simp_all
  from to_double_between [OF m1 to_double_one this]
  show ?thesis by (simp add: uniform_def p(1) minus_double_def plus_double_def to_double_two)
qed

lemma position_range:
  assumes "0 \<le> u" "u \<le> 1" "to_double B = Finite B" "0 \<le> B"
  shows "\<exists>p. Finite u * Finite B = Finite p \<and> 0 \<le> p \<and> p \<le> B"
  using double_mul_range [OF assms] by auto

lemma position_range_cy:
  assumes "0 \<le> u" "u \<le> 1" "to_double B = Finite B" "0 \<le> B"
  shows "\<exists>p. uniform (Finite 0) (Finite B) (Finite u) = Finite p \<and> 0 \<le> p \<and> p \<le> B"
proof -
  obtain p where p: "Finite B * Finite u = Finite p" "p = round64 (u * B)" "0 \<le> p" "p \<le> B"
    using double_mul_range [OF assms] by auto
  have "\<bar>round64 (u * B)\<bar> \<le> max_double"
    using p to_double_FiniteD(2) [OF assms(3)] to_double_FiniteD(1) [OF assms(3)] by simp
  then have "to_double p = Finite p" unfolding p(2) by (rule to_double_round64)
  then show ?thesis using p assms(3)
    by (simp add: uniform_def minus_double_def plus_double_def)
qed

subsection \<open>The double nearest to one tenth\<close>

lemma two_powr_55: "(2::real) powr of_int (- 55) = 1 / 2 ^ 55"
proof -
  have "(2::real) powr of_int (- 55) = 2 powr (- of_int (int 55))" by simp
  also have "\<dots> = 1 / 2 powr of_int (int 55)" by (simp only: powr_minus_divide)
  also have "\<dots> = 1 / of_int (2 ^ 55)" by (simp only: two_powr_nat)
  finally show ?thesis by simp
qed

lemma two_powr_neg: "(2::real) powr of_int (- int k) = 1 / 2 ^ k"
proof -
  have "(2::real) powr of_int (- int k) = 2 powr (- of_int (int k))" by simp
  also have "\<dots> = 1 / 2 powr of_int (int k)" by (simp only: powr_minus_divide)
  also have "\<dots> = 1 / of_int (2 ^ k)" by (simp only: two_powr_nat)
  finally show ?thesis by simp
qed

lemma binade_tenth: "binade (1 / 10) = - 4"
proof (rule binade_eq)
  have "(2::real) powr of_int (- int 3) = 1 / 2 ^ 3" by (rule two_powr_neg)
  then show "(1::real) / 10 < 2 powr of_int (- 4 + 1)" by simp
  have "(2::real) powr of_int (- int 4) = 1 / 2 ^ 4" by (rule two_powr_neg)
  then show "- 4 = - 1022 \<or> 2 powr of_int (- 4) \<le> (1::real) / 10" by simp
qed simp_all

lemma round64_tenth: "round64 (1 / 10) = 3602879701896397 * 2 powr of_int (- 55)"
proof -
  have q: "quantum (1 / 10) = 2 powr of_int (- int 56)"
    by (simp add: quantum_binade binade_tenth)
  have q': "quantum (1 / 10) = 1 / 2 ^ 56"
    unfolding q by (rule two_powr_neg)
  have "round_half_even (1 / 10 / quantum (1 / 10)) = 7205759403792794"
    unfolding q' by (rule round_half_even_unique) simp
  then have "round64 (1 / 10) = 7205759403792794 * (1 / 2 ^ 56)"
    by (simp add: round64_def q')
  also have "\<dots> = 3602879701896397 * (1 / 2 ^ 55)" by simp
  finally show ?thesis by (simp only: two_powr_55)
qed

lemma odd_times_two_powr_less:
  assumes "odd K" "of_int K * (2::real) powr of_int i = of_int L * 2 powr of_int j"
  shows "\<not> i < j"
proof
  assume "i < j"
  define k where "k = nat (j - i)"
  have k: "1 \<le> k" "j = i + int k" using \<open>i < j\<close> by (simp_all add: k_def)
  have "of_int K * (2::real) powr of_int i = of_int L * (2 powr of_int i * 2 powr of_int (int k))"
    using assms(2) unfolding k(2) by (simp only: powr_int_shift)
  then have "of_int K * (2::real) powr of_int i = (of_int L * 2 powr of_int (int k)) * 2 powr of_int i"
    by (simp only: mult_ac)
  then have "(of_int K :: real) = of_int L * 2 powr of_int (int k)"
    by simp
  also have "\<dots> = of_int (L * 2 ^ k)" by (simp only: two_powr_nat of_int_mult)
  finally have "K = L * 2 ^ k" by (simp only: of_int_eq_iff)
  then have "even K" using k(1) by simp
  then show False using assms(1) by simp
qed

lemma odd_times_two_powr_eq:
  assumes "odd K" "odd L" "of_int K * (2::real) powr of_int i = of_int L * 2 powr of_int j"
  shows "i = j \<and> K = L"
proof -
  have "\<not> i < j" using assms(1,3) by (rule odd_times_two_powr_less)
  moreover have "\<not> j < i" using assms(2) assms(3) [symmetric] by (rule odd_times_two_powr_less)
  ultimately have ij: "i = j" by simp
  then have "(of_int K :: real) = of_int L" using assms(3) by simp
  then show ?thesis using ij by simp
qed

subsection \<open>Subtracting and adding one tenth\<close>

lemma round64_multiple:
  assumes "x \<noteq> 0"
  shows "round64 x = of_int (round_half_even (x / quantum x)) * quantum x"
  using assms by (simp add: round64_def)

lemma round64_error_eq:
  assumes "y \<noteq> 0"
  shows "round64 y - y = (of_int (round_half_even (y / quantum y)) - y / quantum y) * quantum y"
proof -
  have "y / quantum y * quantum y = y" using quantum_pos [of y] by simp
  then show ?thesis by (simp add: round64_multiple [OF assms] left_diff_distrib)
qed

lemma round64_error:
  assumes "y \<noteq> 0"
  shows "\<bar>round64 y - y\<bar> \<le> quantum y / 2"
proof -
  have "\<bar>round64 y - y\<bar>
        = \<bar>of_int (round_half_even (y / quantum y)) - y / quantum y\<bar> * quantum y"
    using quantum_pos [of y] by (simp add: round64_error_eq [OF assms] abs_mult)
  also have "\<dots> \<le> 1 / 2 * quantum y"
    using round_half_even_near [of "y / quantum y"] quantum_pos [of y]
    by (intro mult_right_mono) simp_all
  finally show ?thesis by simp
qed

lemma round64_tie_even:
  assumes "y \<noteq> 0" "round64 y - y = quantum y / 2"
  shows "even (round_half_even (y / quantum y))"
proof -
  have "(of_int (round_half_even (y / quantum y)) - y / quantum y) * quantum y = 1 / 2 * quantum y"
    using assms(2) by (simp add: round64_error_eq [OF assms(1)])
  then have "of_int (round_half_even (y / quantum y)) - y / quantum y = 1 / 2"
    using quantum_pos [of y] by (simp only: mult_right_cancel)
  then have "\<bar>of_int (round_half_even (y / quantum y)) - y / quantum y\<bar> = 1 / 2" by simp
  then show ?thesis by (rule round_half_even_tie)
qed

text \<open>A double, and an error of at most half its spacing upwards: rounding gives the double back.\<close>

lemma round_up_stays:
  assumes M: "round64 M = M" and ge: "2 powr of_int (- 4) \<le> M"
    and e: "0 < e"
      "e < quantum M / 2 \<or> (e = quantum M / 2 \<and> even (round_half_even (M / quantum M)))"
  shows "round64 (M + e) = M"
proof -
  define q where "q = quantum M"
  define m where "m = round_half_even (M / quantum M)"
  define b where "b = binade M"
  have qpos: "0 < q" unfolding q_def by (rule quantum_pos)
  have q: "q = 2 powr of_int (b - 52)" by (simp add: q_def b_def quantum_binade)
  have Mpos: "0 < M"
  proof -
    have "0 < (2::real) powr of_int (- 4)" by simp
    then show ?thesis using ge by linarith
  qed
  have Mm: "M = of_int m * q"
    using round64_multiple [of M] Mpos M by (simp add: m_def q_def)
  have "- 4 \<le> \<lfloor>log 2 M\<rfloor>" using Mpos ge by (rule floor_log2_ge)
  then have fl: "- 1022 \<le> \<lfloor>log 2 M\<rfloor>" by linarith
  have lower: "2 powr of_int b \<le> M" unfolding b_def using Mpos fl by (rule binade_lower)
  have upper: "M < 2 powr of_int (b + 1)" unfolding b_def using Mpos by (rule binade_upper)
  have top: "2 powr of_int (b + 1) = of_int (2 ^ 53) * q"
  proof -
    have "(2::real) powr of_int (b + 1) = 2 powr of_int (int 53 + (b - 52))"
      by (rule arg_cong [where f = "\<lambda>i. 2 powr of_int i"]) simp
    also have "\<dots> = 2 powr of_int (int 53) * 2 powr of_int (b - 52)" by (rule powr_int_shift)
    finally show ?thesis by (simp only: two_powr_nat q)
  qed
  have "of_int m * q < of_int (2 ^ 53) * q" using upper Mm top by simp
  then have "(of_int m :: real) < of_int (2 ^ 53)" using qpos by (simp only: mult_less_cancel_right_pos)
  then have "m < 2 ^ 53" by (simp only: of_int_less_iff)
  then have "m + 1 \<le> 2 ^ 53" by simp
  then have "(of_int (m + 1) :: real) \<le> of_int (2 ^ 53)" by (simp only: of_int_le_iff)
  then have "of_int (m + 1) * q \<le> of_int (2 ^ 53) * q" using qpos by (intro mult_right_mono) simp_all
  then have Mq: "M + q \<le> 2 powr of_int (b + 1)"
    using Mm top by (simp add: distrib_right)
  have eq2: "e \<le> q / 2" using e(2) by (auto simp: q_def)
  define z where "z = M + e"
  have zpos: "0 < z" using Mpos e(1) by (simp add: z_def)
  have "z < 2 powr of_int (b + 1)" using Mq eq2 qpos by (simp add: z_def)
  moreover have "2 powr of_int b \<le> z" using lower e(1) by (simp add: z_def)
  moreover have "- 1022 \<le> b" unfolding b_def by (rule binade_ge)
  ultimately have "binade z = b" using zpos by (intro binade_eq) simp_all
  then have qz: "quantum z = q" by (simp add: quantum_binade q)
  have "z / q = of_int m + e / q" using qpos Mm by (simp add: z_def add_divide_distrib)
  moreover have "round_half_even (of_int m + e / q) = m"
  proof (rule round_half_even_unique)
    have "\<bar>of_int m - (of_int m + e / q)\<bar> = e / q" using e(1) qpos by simp
    moreover have "e < q / 2 \<or> (e = q / 2 \<and> even m)"
      using e(2) by (simp add: q_def m_def)
    then have "e / q < 1 / 2 \<or> (e / q = 1 / 2 \<and> even m)"
      using qpos by (auto simp: field_simps)
    ultimately show "\<bar>of_int m - (of_int m + e / q)\<bar> < 1 / 2 \<or>
        \<bar>of_int m - (of_int m + e / q)\<bar> = 1 / 2 \<and> even m" by simp
  qed
  ultimately have "round_half_even (z / quantum z) = m" by (simp add: qz)
  then have "round64 z = of_int m * q" using zpos by (simp add: round64_def qz)
  then show ?thesis using Mm by (simp add: z_def)
qed

lemma mass_round_trip:
  assumes M: "round64 M = M" and cM: "round64 (1 / 10) \<le> M"
  shows "round64 (round64 (M - round64 (1 / 10)) + round64 (1 / 10)) \<le> M"
proof -
  define c where "c = round64 (1 / 10)"
  have c: "c = of_int 3602879701896397 * 2 powr of_int (- 55)"
    by (simp add: c_def round64_tenth)
  have cc: "round64 c = c" by (simp add: c_def round64_idem)
  have c4: "2 powr of_int (- 4) \<le> c"
  proof -
    have a: "(2::real) powr of_int (- 4) = 1 / 2 ^ 4" using two_powr_neg [of 4] by simp
    show ?thesis unfolding c a two_powr_55 by simp
  qed
  have M4: "2 powr of_int (- 4) \<le> M" using c4 cM by (simp add: c_def)
  have Mpos: "0 < M"
  proof -
    have "0 < (2::real) powr of_int (- 4)" by simp
    then show ?thesis using M4 by linarith
  qed
  define y where "y = M - c"
  have y0: "0 \<le> y" using cM by (simp add: y_def c_def)
  have goal: "round64 (round64 y + c) \<le> M"
  proof (cases "y = 0")
    case True
    then show ?thesis using cc by (simp add: round64_zero y_def)
  next
    case False
    then have ypos: "0 < y" using y0 by simp
    define e1 where "e1 = round64 y - y"
    have sum: "round64 y + c = M + e1" by (simp add: e1_def y_def)
    show ?thesis
    proof (cases "e1 \<le> 0")
      case True
      then have "M + e1 \<le> M" by simp
      then show ?thesis unfolding sum using M by (rule round64_le)
    next
      case pos: False
      have err: "e1 \<le> quantum y / 2" using round64_error [OF False] unfolding e1_def by linarith
      have yM: "y \<le> M"
      proof -
        have "0 < (2::real) powr of_int (- 4)" by simp
        then have "0 \<le> c" using c4 by linarith
        then show ?thesis by (simp add: y_def)
      qed
      have bb: "binade y \<le> binade M" using ypos yM by (rule binade_mono)
      have key: "e1 < quantum M / 2 \<or>
                 (e1 = quantum M / 2 \<and> even (round_half_even (M / quantum M)))"
      proof (cases "binade y = binade M")
        case ne: False
        then have lt: "binade y - 52 + 1 \<le> binade M - 52" using bb by simp
        have "quantum y * 2 = 2 powr of_int (binade y - 52) * 2 powr of_int 1"
          by (simp add: quantum_binade)
        also have "\<dots> = 2 powr of_int (binade y - 52 + 1)" by (rule powr_int_shift [symmetric])
        also have "\<dots> \<le> 2 powr of_int (binade M - 52)"
          using lt by (intro powr_mono) simp_all
        also have "\<dots> = quantum M" by (simp only: quantum_binade)
        finally have "quantum y * 2 \<le> quantum M" .
        then show ?thesis using err quantum_pos [of y] by linarith
      next
        case same: True
        then have qq: "quantum y = quantum M" by (simp add: quantum_binade)
        show ?thesis
        proof (cases "e1 = quantum M / 2")
          case lt: False
          then show ?thesis using err qq by simp
        next
          case tie: True
          define q where "q = quantum M"
          define n where "n = round_half_even (y / quantum y)"
          define m where "m = round_half_even (M / quantum M)"
          have qpos: "0 < q" unfolding q_def by (rule quantum_pos)
          have "round64 y - y = quantum y / 2" using tie qq by (simp add: e1_def)
          then have n: "even n" unfolding n_def using False by (intro round64_tie_even)
          have ry: "round64 y = of_int n * q"
            using round64_multiple [OF False] by (simp add: n_def q_def qq)
          have Mm: "M = of_int m * q"
            using round64_multiple [of M] Mpos M by (simp add: m_def q_def)
          have t1: "e1 = q / 2" using tie by (simp add: q_def)
          have t2: "e1 = round64 y - (M - c)" by (simp add: e1_def y_def)
          have "2 * c = 2 * (of_int m * q) - 2 * (of_int n * q) + q"
            using t1 t2 ry Mm by linarith
          then have "2 * c = (2 * (of_int m - of_int n) + 1) * q"
            by (simp add: algebra_simps)
          then have "2 * c = of_int (2 * (m - n) + 1) * q" by simp
          moreover have "2 * c = of_int 3602879701896397 * 2 powr of_int (- 54)"
          proof -
            have "(2::real) powr of_int (1 + - 55) = 2 powr of_int 1 * 2 powr of_int (- 55)"
              by (rule powr_int_shift)
            then have "2 * 2 powr of_int (- 55) = (2::real) powr of_int (- 54)" by simp
            then show ?thesis by (simp add: c)
          qed
          ultimately have kk: "of_int 3602879701896397 * (2::real) powr of_int (- 54)
                           = of_int (2 * (m - n) + 1) * 2 powr of_int (binade M - 52)"
            by (simp add: q_def quantum_binade)
          have "odd (3602879701896397::int)" "odd (2 * (m - n) + 1)" by simp_all
          from odd_times_two_powr_eq [OF this kk]
          have "(3602879701896397::int) = 2 * (m - n) + 1" by (rule conjunct2)
          then have "m = n + 1801439850948198" by simp
          then have "even m" using n by simp
          then show ?thesis using tie by (simp add: m_def)
        qed
      qed
      have "0 < e1" using pos by simp
      with M M4 have "round64 (M + e1) = M" using key by (rule round_up_stays)
      then show ?thesis by (simp add: sum)
    qed
  qed
  then show ?thesis by (simp add: y_def c_def)
qed

subsection \<open>The ranges of one body\<close>

lemma round64_one: "round64 1 = 1"
  using round64_powr [of 0] by simp

lemma round64_tenth_range: "0 < round64 (1 / 10)" "round64 (1 / 10) \<le> 1"
proof -
  have "0 < (3602879701896397::real) * 2 powr of_int (- 55)" by simp
  then show "0 < round64 (1 / 10)" by (simp only: round64_tenth)
  show "round64 (1 / 10) \<le> 1" by (rule round64_le) (simp_all add: round64_one)
qed

lemma tenth_eq: "tenth = Finite (round64 (1 / 10))"
  unfolding tenth_def using round64_tenth_range by (intro to_double_small) simp

lemma to_double_tenth: "to_double (round64 (1 / 10)) = Finite (round64 (1 / 10))"
  using round64_tenth_range max_double_ge_one by (intro to_double_round64) simp

text \<open>The mass of a random body, in both orders of the operands.\<close>

lemma mass_range:
  assumes "0 \<le> u" "u \<le> 1" "to_double M = Finite M" "round64 (1 / 10) \<le> M"
  shows "\<exists>w. Finite u * (Finite M - tenth) + tenth = Finite w \<and>
             uniform tenth (Finite M) (Finite u) = Finite w \<and>
             round64 (1 / 10) \<le> w \<and> w \<le> M"
proof -
  define c where "c = round64 (1 / 10)"
  have c: "0 < c" "c \<le> M" "to_double c = Finite c" "round64 c = c"
    using round64_tenth_range(1) assms(4) to_double_tenth by (simp_all add: c_def round64_idem)
  note M = to_double_FiniteD [OF assms(3)]
  have "0 \<le> M + - c" "M + - c \<le> M" using c by simp_all
  from to_double_between [OF to_double_zero assms(3) this]
  have d: "to_double (M + - c) = Finite (round64 (M + - c))" "0 \<le> round64 (M + - c)"
    "round64 (M + - c) \<le> M" by simp_all
  define d where "d = round64 (M - c)"
  have tc: "tenth = Finite c" by (simp add: tenth_eq c_def)
  have dd: "Finite M - Finite c = Finite d" "0 \<le> d" "d \<le> M"
    using d by (simp_all add: d_def minus_double_def)
  have "\<bar>round64 (M - c)\<bar> \<le> max_double" using dd(2,3) M by (simp add: d_def)
  then have dr: "to_double d = Finite d" unfolding d_def by (rule to_double_round64)
  obtain p where p: "Finite u * Finite d = Finite p" "Finite d * Finite u = Finite p"
    "0 \<le> p" "p \<le> d"
    using double_mul_range [OF assms(1,2) dr dd(2)] by auto
  have lo: "c \<le> round64 (p + c)" using c(4) p(3) by (intro round64_ge) simp_all
  have "round64 (p + c) \<le> round64 (d + c)" using p(4) by (intro round64_mono) simp
  also have "\<dots> \<le> M"
    unfolding d_def c_def using M(1) [symmetric] assms(4) by (rule mass_round_trip)
  finally have hi: "round64 (p + c) \<le> M" .
  have "\<bar>round64 (p + c)\<bar> \<le> max_double" using lo hi c(1) M by linarith
  then have w: "to_double (p + c) = Finite (round64 (p + c))" by (rule to_double_Finite)
  have "Finite u * (Finite M - tenth) + tenth = Finite (round64 (p + c))"
    unfolding tc dd(1) p(1) by (simp add: plus_double_def w)
  moreover have "uniform tenth (Finite M) (Finite u) = Finite (round64 (p + c))"
    unfolding uniform_def tc dd(1) p(2) using w by (simp add: plus_double_def add.commute)
  ultimately show ?thesis using lo hi by (simp add: c_def)
qed

lemma finite_positive:
  assumes "is_double b" "double_less (Finite 0) b" "double_less b PlusInf"
  shows "\<exists>B. b = Finite B \<and> to_double B = Finite B \<and> 0 < B"
  using assms by (cases b) (auto simp: is_double_def double_less_def)

lemma finite_mass:
  assumes "is_double b" "double_le tenth b" "double_less b PlusInf"
  shows "\<exists>M. b = Finite M \<and> to_double M = Finite M \<and> round64 (1 / 10) \<le> M"
  using assms by (cases b) (auto simp: is_double_def double_less_def tenth_eq)

lemma unit_value:
  assumes "double_le (Finite 0) u" "double_less u (Finite 1)"
  shows "\<exists>v. u = Finite v \<and> 0 \<le> v \<and> v \<le> 1"
  using assms by (cases u) (auto simp: double_less_def)

lemma double_between_Finite:
  "double_between (Finite lo) (Finite hi) (Finite a) \<longleftrightarrow> lo \<le> a \<and> a \<le> hi"
  by (simp add: double_between_def)

lemma random_body_in_ranges:
  assumes "1 \<le> RAND_MAX" "RAND_MAX < 2 ^ 31" "\<forall>k. rand_seq k \<le> RAND_MAX"
    and "is_double box_size" "double_less (Finite 0) box_size" "double_less box_size PlusInf"
    and "is_double max_mass" "double_le tenth max_mass" "double_less max_mass PlusInf"
  shows "body_in_ranges box_size max_mass (random_body RAND_MAX rand_seq c box_size max_mass)"
proof -
  obtain B where B: "box_size = Finite B" "to_double B = Finite B" "0 < B"
    using finite_positive [OF assms(4,5,6)] by auto
  obtain M where M: "max_mass = Finite M" "to_double M = Finite M" "round64 (1 / 10) \<le> M"
    using finite_mass [OF assms(7,8,9)] by auto
  have u: "\<exists>u. rand_unit RAND_MAX (rand_seq k) = Finite u \<and> 0 \<le> u \<and> u \<le> 1" for k
    using assms(1,2,3) by (intro rand_unit_range) simp_all
  have B0: "0 \<le> B" using B(3) by simp
  have x: "double_between (Finite 0) box_size (rand_unit RAND_MAX (rand_seq k) * box_size)" for k
  proof -
    obtain v where v: "rand_unit RAND_MAX (rand_seq k) = Finite v" "0 \<le> v" "v \<le> 1"
      using u [of k] by auto
    obtain p where "Finite v * Finite B = Finite p" "0 \<le> p" "p \<le> B"
      using position_range [OF v(2,3) B(2) B0] by auto
    then show ?thesis by (simp add: v(1) B(1) double_between_Finite)
  qed
  have vel: "double_between (Finite (- 1)) (Finite 1)
               (rand_unit RAND_MAX (rand_seq k) * Finite 2 - Finite 1)" for k
  proof -
    obtain v where v: "rand_unit RAND_MAX (rand_seq k) = Finite v" "0 \<le> v" "v \<le> 1"
      using u [of k] by auto
    obtain w where "Finite v * Finite 2 - Finite 1 = Finite w" "- 1 \<le> w" "w \<le> 1"
      using velocity_range [OF v(2,3)] by auto
    then show ?thesis by (simp add: v(1) double_between_Finite)
  qed
  have mass: "double_between tenth max_mass
               (rand_unit RAND_MAX (rand_seq k) * (max_mass - tenth) + tenth)" for k
  proof -
    obtain v where v: "rand_unit RAND_MAX (rand_seq k) = Finite v" "0 \<le> v" "v \<le> 1"
      using u [of k] by auto
    obtain w where w: "Finite v * (Finite M - tenth) + tenth = Finite w"
      "round64 (1 / 10) \<le> w" "w \<le> M"
      using mass_range [OF v(2,3) M(2,3)] by auto
    show ?thesis unfolding v(1) M(1) w(1) using w(2,3) by (simp add: tenth_eq double_between_Finite)
  qed
  show ?thesis
    by (simp add: body_in_ranges_def random_body_def Let_def x vel mass)
qed

lemma random_dict_in_ranges:
  assumes "\<forall>k. double_le (Finite 0) (unit_seq k) \<and> double_less (unit_seq k) (Finite 1)"
    and "is_double box_size" "double_less (Finite 0) box_size" "double_less box_size PlusInf"
    and "is_double max_mass" "double_le tenth max_mass" "double_less max_mass PlusInf"
  shows "dict_in_ranges box_size max_mass (random_dict unit_seq c box_size max_mass)"
proof -
  obtain B where B: "box_size = Finite B" "to_double B = Finite B" "0 < B"
    using finite_positive [OF assms(2,3,4)] by auto
  obtain M where M: "max_mass = Finite M" "to_double M = Finite M" "round64 (1 / 10) \<le> M"
    using finite_mass [OF assms(5,6,7)] by auto
  have u: "\<exists>v. unit_seq k = Finite v \<and> 0 \<le> v \<and> v \<le> 1" for k
    using assms(1) by (intro unit_value) simp_all
  have B0: "0 \<le> B" using B(3) by simp
  have x: "double_between (Finite 0) box_size (uniform (Finite 0) box_size (unit_seq k))" for k
  proof -
    obtain v where v: "unit_seq k = Finite v" "0 \<le> v" "v \<le> 1" using u [of k] by auto
    obtain p where "uniform (Finite 0) (Finite B) (Finite v) = Finite p" "0 \<le> p" "p \<le> B"
      using position_range_cy [OF v(2,3) B(2) B0] by auto
    then show ?thesis by (simp add: v(1) B(1) double_between_Finite)
  qed
  have vel: "double_between (Finite (- 1)) (Finite 1)
               (uniform (Finite (- 1)) (Finite 1) (unit_seq k))" for k
  proof -
    obtain v where v: "unit_seq k = Finite v" "0 \<le> v" "v \<le> 1" using u [of k] by auto
    obtain w where "uniform (Finite (- 1)) (Finite 1) (Finite v) = Finite w" "- 1 \<le> w" "w \<le> 1"
      using velocity_range_cy [OF v(2,3)] by auto
    then show ?thesis by (simp add: v(1) double_between_Finite)
  qed
  have mass: "double_between tenth max_mass (uniform tenth max_mass (unit_seq k))" for k
  proof -
    obtain v where v: "unit_seq k = Finite v" "0 \<le> v" "v \<le> 1" using u [of k] by auto
    obtain w where w: "uniform tenth (Finite M) (Finite v) = Finite w"
      "round64 (1 / 10) \<le> w" "w \<le> M"
      using mass_range [OF v(2,3) M(2,3)] by auto
    show ?thesis unfolding v(1) M(1) w(1) using w(2,3) by (simp add: tenth_eq double_between_Finite)
  qed
  show ?thesis
    by (simp add: dict_in_ranges_def random_dict_def x vel mass)
qed

lemma fold_push_random_body_length:
  "length (fst (fold (push_random_body RAND_MAX rand_seq box_size max_mass) ks acc))
   = length (fst acc) + length ks"
  by (induction ks arbitrary: acc) (simp_all add: push_random_body_def)

lemma fold_push_random_body_calls:
  "snd (fold (push_random_body RAND_MAX rand_seq box_size max_mass) ks acc)
   = snd acc + 5 * length ks"
  by (induction ks arbitrary: acc) (simp_all add: push_random_body_def)

lemma fold_push_random_body_all:
  assumes "\<And>c. P (random_body RAND_MAX rand_seq c box_size max_mass)"
  shows "list_all P (fst acc) \<Longrightarrow>
         list_all P (fst (fold (push_random_body RAND_MAX rand_seq box_size max_mass) ks acc))"
  by (induction ks arbitrary: acc) (simp_all add: push_random_body_def assms)

lemma fold_append_random_dict_length:
  "length (fst (fold (append_random_dict unit_seq box_size max_mass) ks acc))
   = length (fst acc) + length ks"
  by (induction ks arbitrary: acc) (simp_all add: append_random_dict_def)

lemma fold_append_random_dict_calls:
  "snd (fold (append_random_dict unit_seq box_size max_mass) ks acc)
   = snd acc + 5 * length ks"
  by (induction ks arbitrary: acc) (simp_all add: append_random_dict_def)

lemma fold_append_random_dict_all:
  assumes "\<And>c. P (random_dict unit_seq c box_size max_mass)"
  shows "list_all P (fst acc) \<Longrightarrow>
         list_all P (fst (fold (append_random_dict unit_seq box_size max_mass) ks acc))"
  by (induction ks arbitrary: acc) (simp_all add: append_random_dict_def assms)

text \<open>A negative \<open>N\<close>: the C++ function throws, the Cython function returns the empty list.\<close>

lemma initialize_bodies_negative:
  "N < 0 \<Longrightarrow> initialize_bodies RAND_MAX rand_seq calls N box_size max_mass = Inl LengthError"
  "N < 0 \<Longrightarrow> - (2 ^ 31) \<le> N \<Longrightarrow>
     initialize_bodies_cy unit_seq calls N box_size max_mass = Inr ([], calls)"
  by (simp_all add: initialize_bodies_def initialize_bodies_cy_def)

lemma rand_unit_max: "rand_unit 32767 32767 = Finite 1"
proof -
  have p31: "to_double (2 powr of_int 31) = Finite (2 powr of_int 31)"
    by (rule to_double_two_powr) simp_all
  have "(1::real) \<le> 32767" "(32767::real) \<le> 2 powr of_int 31" by (simp_all add: powr_numeral)
  from to_double_between [OF to_double_one p31 this]
  have "to_double 32767 = Finite (round64 32767)" "round64 32767 \<noteq> 0" by simp_all
  then show ?thesis by (simp add: rand_unit_def divide_double_def to_double_one)
qed

lemma rand_unit_zero: "rand_unit 32767 0 = Finite 0"
proof -
  have p31: "to_double (2 powr of_int 31) = Finite (2 powr of_int 31)"
    by (rule to_double_two_powr) simp_all
  have "(1::real) \<le> 32767" "(32767::real) \<le> 2 powr of_int 31" by (simp_all add: powr_numeral)
  from to_double_between [OF to_double_one p31 this]
  have "to_double 32767 = Finite (round64 32767)" "round64 32767 \<noteq> 0" by simp_all
  then show ?thesis by (simp add: rand_unit_def divide_double_def to_double_zero)
qed

lemma smallest_double_three_quarters:
  "to_double (2 powr (- 1074) * (3 / 4)) = Finite (2 powr (- 1074))"
proof -
  define x :: real where "x = 2 powr (- 1074) * (3 / 4)"
  have xpos: "0 < x" by (simp add: x_def)
  have "x \<le> 2 powr (- 1074)" by (simp add: x_def)
  also have "\<dots> < 2 powr of_int (- 1022 + 1)" by (intro powr_less_mono) simp_all
  finally have "binade x = - 1022" using xpos by (intro binade_eq) simp_all
  then have q: "quantum x = 2 powr (- 1074)" by (simp add: quantum_binade)
  have "x / quantum x = x / 2 powr (- 1074)" by (simp only: q)
  also have "\<dots> = 3 / 4" by (simp add: x_def)
  finally have r: "x / quantum x = 3 / 4" .
  have "round_half_even (3 / 4) = 1" by (rule round_half_even_unique) simp
  then have "round_half_even (x / quantum x) = 1" by (simp only: r)
  moreover have "round64 x = of_int (round_half_even (x / quantum x)) * quantum x"
    using xpos by (intro round64_multiple) simp
  ultimately have "round64 x = 2 powr (- 1074)" by (simp add: q)
  moreover have "\<bar>(2::real) powr (- 1074)\<bar> \<le> 1"
  proof -
    have "(2::real) powr (- 1074) \<le> 2 powr 0" by (intro powr_mono) simp_all
    then show ?thesis by simp
  qed
  ultimately show ?thesis unfolding x_def [symmetric] by (simp add: to_double_small)
qed


subsection \<open>The claim on the ranges\<close>

text \<open>
  Claim C10, as stated, fails. In the C++ function, when \<^verbatim>\<open>std::rand()\<close> returns
  \<^verbatim>\<open>RAND_MAX\<close> the position is \<open>box_size\<close> itself, which is not below \<open>box_size\<close>. In the
  Cython function the product with a value below 1 can round up to \<open>box_size\<close>: with the
  smallest double above 0 as \<open>box_size\<close> and three quarters from \<^verbatim>\<open>random()\<close>. And an
  infinite \<open>box_size\<close> is above 0 and an infinite \<open>max_mass\<close> is above \<open>0.1\<close>, but when
  \<^verbatim>\<open>std::rand()\<close> returns 0 the position, or the mass, is a NaN.
\<close>

theorem initialize_bodies_hits_box_size:
  "(\<exists>bs. initialize_bodies 32767 always_max 0 1 (Finite 1) (Finite 1) = Inr (bs, 5) \<and>
         map body_x bs = [Finite 1]) \<and>
   \<not> double_less (Finite 1) (Finite 1) \<and>
   (\<exists>ds. initialize_bodies_cy three_quarter_units 0 1 (Finite (2 powr (- 1074))) (Finite 1)
           = Inr (ds, 5) \<and>
         map (\<lambda>d. d ''x'') ds = [Some (Finite (2 powr (- 1074)))]) \<and>
   double_less (Finite 0) PlusInf \<and>
   body_x (random_body 32767 (\<lambda>k. 0) 0 PlusInf (Finite 1)) = NaN \<and>
   double_le tenth PlusInf \<and>
   body_m (random_body 32767 (\<lambda>k. 0) 0 (Finite 1) PlusInf) = NaN"
proof -
  have 1: "\<exists>bs. initialize_bodies 32767 always_max 0 1 (Finite 1) (Finite 1) = Inr (bs, 5) \<and>
         map body_x bs = [Finite 1]"
    by (simp add: initialize_bodies_def push_random_body_def random_body_def Let_def
          always_max_def rand_unit_max times_double_def to_double_one)
  have s: "to_double (2 powr (- 1074)) = Finite (2 powr (- 1074))"
    using to_double_two_powr [of "- 1074"] by simp
  have a: "Finite (2 powr (- 1074)) - Finite 0 = Finite (2 powr (- 1074))"
    by (simp add: minus_double_def s)
  have b: "Finite (2 powr (- 1074)) * Finite (3 / 4) = Finite (2 powr (- 1074))"
    unfolding times_double_def double_mul.simps by (rule smallest_double_three_quarters)
  have c: "Finite 0 + Finite (2 powr (- 1074)) = Finite (2 powr (- 1074))"
    by (simp add: plus_double_def s)
  have "uniform (Finite 0) (Finite (2 powr (- 1074))) (Finite (3 / 4)) = Finite (2 powr (- 1074))"
    by (simp only: uniform_def a b c)
  then have 2: "\<exists>ds. initialize_bodies_cy three_quarter_units 0 1 (Finite (2 powr (- 1074))) (Finite 1)
           = Inr (ds, 5) \<and>
         map (\<lambda>d. d ''x'') ds = [Some (Finite (2 powr (- 1074)))]"
    by (simp add: initialize_bodies_cy_def append_random_dict_def random_dict_def
          three_quarter_units_def)
  have 3: "body_x (random_body 32767 (\<lambda>k. 0) 0 PlusInf (Finite 1)) = NaN"
    by (simp add: random_body_def Let_def rand_unit_zero times_double_def)
  have 4: "body_m (random_body 32767 (\<lambda>k. 0) 0 (Finite 1) PlusInf) = NaN"
    by (simp add: random_body_def Let_def rand_unit_zero tenth_eq minus_double_def
          plus_double_def times_double_def)
  from 1 2 3 4 show ?thesis by (simp add: double_less_def tenth_eq)
qed


text \<open>
  Claim C10, amended. On doubles, for an \<^verbatim>\<open>int\<close> \<open>N \<ge> 0\<close>, a finite \<open>box_size > 0\<close>, a
  finite \<open>max_mass \<ge> 0.1\<close> and every sequence of values of the random source
  (\<^verbatim>\<open>std::rand()\<close> between 0 and \<^verbatim>\<open>RAND_MAX\<close>, which is an \<^verbatim>\<open>int\<close> of at least 1;
  \<^verbatim>\<open>random()\<close> at least 0 and below 1), \<^verbatim>\<open>initialize_bodies\<close> and
  \<^verbatim>\<open>initialize_bodies_cy\<close> return exactly \<open>N\<close> bodies after \<open>5 * N\<close> calls of the source,
  each with \<open>x\<close>, \<open>y\<close> in the closed interval from 0 to \<open>box_size\<close>, \<open>vx\<close>, \<open>vy\<close> in
  \<open>[-1, 1]\<close> and \<open>m\<close> in \<open>[0.1, max_mass]\<close>, where \<open>0.1\<close> is the double of the literal.
\<close>

theorem initialize_bodies_ranges:
  assumes "0 \<le> N" "N < 2 ^ 31"
    and "1 \<le> RAND_MAX" "RAND_MAX < 2 ^ 31" "\<forall>k. rand_seq k \<le> RAND_MAX"
    and "\<forall>k. double_le (Finite 0) (unit_seq k) \<and> double_less (unit_seq k) (Finite 1)"
    and "is_double box_size" "double_less (Finite 0) box_size" "double_less box_size PlusInf"
    and "is_double max_mass" "double_le tenth max_mass" "double_less max_mass PlusInf"
  shows "(\<exists>bs. initialize_bodies RAND_MAX rand_seq calls N box_size max_mass
                 = Inr (bs, calls + 5 * nat N) \<and>
               int (length bs) = N \<and> list_all (body_in_ranges box_size max_mass) bs) \<and>
         (\<exists>ds. initialize_bodies_cy unit_seq calls' N box_size max_mass
                 = Inr (ds, calls' + 5 * nat N) \<and>
               int (length ds) = N \<and> list_all (dict_in_ranges box_size max_mass) ds)"
proof -
  define r where "r = fold (push_random_body RAND_MAX rand_seq box_size max_mass) [0..<nat N] ([], calls)"
  define s where "s = fold (append_random_dict unit_seq box_size max_mass) [0..<nat N] ([], calls')"
  have "body_in_ranges box_size max_mass (random_body RAND_MAX rand_seq c box_size max_mass)" for c
    using assms(3,4,5,7-12) by (rule random_body_in_ranges)
  then have "list_all (body_in_ranges box_size max_mass) (fst r)"
    unfolding r_def by (intro fold_push_random_body_all) simp_all
  moreover have "int (length (fst r)) = N" "snd r = calls + 5 * nat N"
    using assms(1) by (simp_all add: r_def fold_push_random_body_length fold_push_random_body_calls)
  moreover have "initialize_bodies RAND_MAX rand_seq calls N box_size max_mass = Inr (fst r, snd r)"
    using assms(1) by (simp add: initialize_bodies_def r_def)
  ultimately have 1: "\<exists>bs. initialize_bodies RAND_MAX rand_seq calls N box_size max_mass
                 = Inr (bs, calls + 5 * nat N) \<and>
               int (length bs) = N \<and> list_all (body_in_ranges box_size max_mass) bs"
    by simp
  have "dict_in_ranges box_size max_mass (random_dict unit_seq c box_size max_mass)" for c
    using assms(6-12) by (rule random_dict_in_ranges)
  then have "list_all (dict_in_ranges box_size max_mass) (fst s)"
    unfolding s_def by (intro fold_append_random_dict_all) simp_all
  moreover have "int (length (fst s)) = N" "snd s = calls' + 5 * nat N"
    using assms(1) by (simp_all add: s_def fold_append_random_dict_length fold_append_random_dict_calls)
  moreover have "initialize_bodies_cy unit_seq calls' N box_size max_mass = Inr (fst s, snd s)"
    using assms(1,2) by (simp add: initialize_bodies_cy_def s_def)
  ultimately have 2: "\<exists>ds. initialize_bodies_cy unit_seq calls' N box_size max_mass
                 = Inr (ds, calls' + 5 * nat N) \<and>
               int (length ds) = N \<and> list_all (dict_in_ranges box_size max_mass) ds"
    by simp
  from 1 2 show ?thesis by simp
qed

theorem initialize_bodies_ranges_witness:
  "(0::int) \<le> 1 \<and> (1::int) < 2 ^ 31 \<and> (1::nat) \<le> 32767 \<and> (32767::nat) < 2 ^ 31 \<and>
   (\<forall>k. always_max k \<le> 32767) \<and>
   (\<forall>k. double_le (Finite 0) (half_units k) \<and> double_less (half_units k) (Finite 1)) \<and>
   is_double (Finite 1) \<and> double_less (Finite 0) (Finite 1) \<and> double_less (Finite 1) PlusInf \<and>
   double_le tenth (Finite 1) \<and>
   (\<exists>bs. initialize_bodies 32767 always_max 0 1 (Finite 1) (Finite 1) = Inr (bs, 5) \<and>
         int (length bs) = 1 \<and> list_all (body_in_ranges (Finite 1) (Finite 1)) bs) \<and>
   (\<exists>ds. initialize_bodies_cy half_units 0 1 (Finite 1) (Finite 1) = Inr (ds, 5) \<and>
         int (length ds) = 1 \<and> list_all (dict_in_ranges (Finite 1) (Finite 1)) ds)"
proof -
  have h: "(0::int) \<le> 1" "(1::int) < 2 ^ 31" "(1::nat) \<le> 32767" "(32767::nat) < 2 ^ 31"
    "\<forall>k. always_max k \<le> 32767"
    "\<forall>k. double_le (Finite 0) (half_units k) \<and> double_less (half_units k) (Finite 1)"
    "is_double (Finite 1)" "double_less (Finite 0) (Finite 1)" "double_less (Finite 1) PlusInf"
    "is_double (Finite 1)" "double_le tenth (Finite 1)" "double_less (Finite 1) PlusInf"
    using round64_tenth_range
    by (simp_all add: always_max_def half_units_def double_less_def is_double_def to_double_one tenth_eq)
  from initialize_bodies_ranges [OF h, of 0 0] h show ?thesis by simp
qed

end
